theory Spec2Isabelle
  imports Complex_Main "HOL-Library.Word" "HOL-Library.Multiset" "HOL-Library.List_Lexorder"
    "HOL-Library.Char_ord"
    "HOL-Library.Product_Lexorder"
begin

unbundle bit_operations_syntax

section \<open>Data model\<close>

text \<open>
  A student as \<open>parseCSV\<close> produces it (\<open>{ name, program }\<close>), a student placed in a
  group (\<open>{ name, program, locked }\<close>), a group as the grouping functions return it
  (\<open>{ index, students, missingPrograms }\<close>, \<open>missingPrograms\<close> being \<open>null\<close> or a
  non-empty array) and the object returned by \<open>groupStudents\<close>.
\<close>

record student =
  name :: string
  program :: string

record placed = student +
  locked :: bool

record group =
  index :: nat
  students :: "placed list"
  missingPrograms :: "string list option"

record partition =
  groupSize :: int
  numGroups :: nat
  programs :: "string list"
  groups :: "group list"

text \<open>
  Every \<open>throw\<close> of the modelled functions, and the two exceptions the JavaScript runtime
  raises by itself in \<open>reshuffleRespectingLocksToGroupSize\<close>.
\<close>

datatype error =
    CsvIsEmpty
  | MissingHeader
  | NoStudentsFoundInCsv
  | GroupSizeMustBePositive
  | NoStudents
  | TooManyLockedGroups
  | RangeError
  | TypeError

section \<open>The seeded random source and the shuffle\<close>

text \<open>
  \<open>mulberry32(a)\<close> returns a closure over the 32-bit state \<open>a\<close>. One call of the closure
  is \<open>mulberry32\<close> below: it returns the new state and the unsigned 32-bit value that the
  source divides by \<open>4294967296\<close>. \<open>|0\<close>, \<open>Math.imul\<close> and \<open>^\<close> are arithmetic modulo
  \<open>2^32\<close>, \<open>>>>\<close> is the logical shift.
\<close>

definition mulberry32 :: "32 word \<Rightarrow> 32 word \<times> 32 word" where
  "mulberry32 a =
     (let a1 = a + 0x6D2B79F5;
          t = (a1 XOR drop_bit 15 a1) * (1 OR a1);
          t2 = (t + (t XOR drop_bit 7 t) * (61 OR t)) XOR t
      in (a1, t2 XOR drop_bit 14 t2))"

text \<open>
  The source of randomness of one operation. With a numeric seed it is the state of the
  \<open>mulberry32\<close> closure. Without one the source calls \<open>Math.random()\<close>, which belongs to
  the environment: it is an oracle, a sequence of draws read at an increasing position.

  \<open>draw r n\<close> is \<open>Math.floor(x * n)\<close> for the next float \<open>x\<close> of the source. A seeded
  \<open>x\<close> is \<open>u / 2^32\<close>, so the index is \<open>u * n div 2^32\<close> (the product is exact in a double
  while \<open>n \<le> 2^21\<close>). An unseeded \<open>x\<close> is any float in \<open>[0, 1)\<close>, so the index is any
  number below \<open>n\<close>: the oracle's draw reduced modulo \<open>n\<close>.
\<close>

datatype rng = Seeded "32 word" | Unseeded "nat \<Rightarrow> nat" nat

definition mkRng :: "(nat \<Rightarrow> nat) \<Rightarrow> int option \<Rightarrow> rng" where
  "mkRng orc seed = (case seed of Some s \<Rightarrow> Seeded (word_of_int s) | None \<Rightarrow> Unseeded orc 0)"

fun draw :: "rng \<Rightarrow> nat \<Rightarrow> nat \<times> rng" where
  "draw (Seeded a) n = (let (a', u) = mulberry32 a in (nat (uint u * int n div 2 ^ 32), Seeded a'))"
| "draw (Unseeded orc k) n = (orc k mod n, Unseeded orc (Suc k))"

text \<open>
  \<open>shuffleInPlace\<close>: for \<open>i\<close> from the last index down to 1, swap \<open>arr[i]\<close> and \<open>arr[j]\<close>
  with \<open>j\<close> drawn below \<open>i + 1\<close>. The array is returned together with the advanced source.
\<close>

fun shuffleFrom :: "nat \<Rightarrow> 'a list \<Rightarrow> rng \<Rightarrow> 'a list \<times> rng" where
  "shuffleFrom 0 arr r = (arr, r)"
| "shuffleFrom (Suc i) arr r =
     (let (j, r') = draw r (Suc i + 1)
      in shuffleFrom i (arr[Suc i := arr ! j, j := arr ! Suc i]) r')"

definition shuffleInPlace :: "'a list \<Rightarrow> rng \<Rightarrow> 'a list \<times> rng" where
  "shuffleInPlace arr r = shuffleFrom (length arr - 1) arr r"

section \<open>groupStudents\<close>

text \<open>
  \<open>programMap\<close> is a JavaScript \<open>Map\<close>: keys in insertion order, each with the array of
  its students. \<open>pushTo\<close> is \<open>if (!m.has(p)) m.set(p, []); m.get(p).push(s)\<close>.
\<close>

type_synonym 'a buckets = "(string \<times> 'a list) list"

fun pushTo :: "string \<Rightarrow> 'a \<Rightarrow> 'a buckets \<Rightarrow> 'a buckets" where
  "pushTo p s [] = [(p, [s])]"
| "pushTo p s ((q, b) # m) = (if q = p then (q, b @ [s]) # m else (q, b) # pushTo p s m)"

definition getBucket :: "'a buckets \<Rightarrow> string \<Rightarrow> 'a list" where
  "getBucket m p = (case map_of m p of Some b \<Rightarrow> b | None \<Rightarrow> [])"

fun setBucket :: "string \<Rightarrow> 'a list \<Rightarrow> 'a buckets \<Rightarrow> 'a buckets" where
  "setBucket p b [] = []"
| "setBucket p b ((q, c) # m) = (if q = p then (q, b) # m else (q, c) # setBucket p b m)"

definition buildProgramMap :: "student list \<Rightarrow> student buckets" where
  "buildProgramMap studs = fold (\<lambda>s m. pushTo (program s) s m) studs []"

text \<open>\<open>for (const p of programs) shuffleInPlace(programMap.get(p), rng)\<close>\<close>

fun shuffleBuckets :: "string list \<Rightarrow> 'a buckets \<Rightarrow> rng \<Rightarrow> 'a buckets \<times> rng" where
  "shuffleBuckets [] m r = (m, r)"
| "shuffleBuckets (p # ps) m r =
     (let (b, r') = shuffleInPlace (getBucket m p) r
      in shuffleBuckets ps (setBucket p b m) r')"

text \<open>\<open>Math.ceil(a / b)\<close> on integers, \<open>b\<close> not zero.\<close>

definition ceilDiv :: "int \<Rightarrow> int \<Rightarrow> int" where
  "ceilDiv a b = - ((- a) div b)"

text \<open>\<open>{ ...s, locked: false }\<close>\<close>

definition place :: "student \<Rightarrow> placed" where
  "place s = \<lparr>name = name s, program = program s, locked = False\<rparr>"

definition isFull :: "int \<Rightarrow> 'a list \<Rightarrow> bool" where
  "isFull gSize gr = (int (length gr) \<ge> gSize)"

text \<open>
  One program with enough students: \<open>for (g = 0; g < numGroups; g++)\<close>, group \<open>g\<close> takes
  \<open>bucket.pop()\<close> when it has room and the bucket is not empty. The traversal of the
  indices \<open>0 .. numGroups - 1\<close> is the traversal of the list of groups.
\<close>

fun enoughPass :: "int \<Rightarrow> student list \<Rightarrow> placed list list \<Rightarrow> student list \<times> placed list list" where
  "enoughPass gSize bucket [] = (bucket, [])"
| "enoughPass gSize bucket (gr # grs) =
     (if int (length gr) < gSize \<and> length bucket > 0
      then (let (b, grs') = enoughPass gSize (butlast bucket) grs
            in (b, (gr @ [place (last bucket)]) # grs'))
      else (let (b, grs') = enoughPass gSize bucket grs in (b, gr # grs')))"

fun assignEnough :: "int \<Rightarrow> string list \<Rightarrow> student buckets \<Rightarrow> placed list list
    \<Rightarrow> student buckets \<times> placed list list" where
  "assignEnough gSize [] m grs = (m, grs)"
| "assignEnough gSize (p # ps) m grs =
     (let (b, grs') = enoughPass gSize (getBucket m p) grs
      in assignEnough gSize ps (setBucket p b m) grs')"

text \<open>
  One program with a shortage: the \<open>while (bucket.length > 0)\<close> loop, with the group
  counter \<open>g\<close> stepping cyclically and the \<open>break\<close> once every group is full.
  \<open>numGroups\<close> is the length of the array of groups. The counter starts at 0 and is
  reduced modulo \<open>numGroups\<close>, so it is always a valid index; the second branch, which
  the source never reaches, only makes the function total.
\<close>

function shortLoop :: "int \<Rightarrow> student list \<Rightarrow> nat \<Rightarrow> placed list list
    \<Rightarrow> student list \<times> placed list list" where
  "shortLoop gSize bucket g grs =
     (if \<not> length bucket > 0 then (bucket, grs)
      else if g \<ge> length grs then (bucket, grs)
      else if int (length (grs ! g)) < gSize then
        (let grs' = grs[g := grs ! g @ [place (last bucket)]]
         in if list_all (isFull gSize) grs' then (butlast bucket, grs')
            else shortLoop gSize (butlast bucket) ((g + 1) mod length grs) grs')
      else if list_all (isFull gSize) grs then (bucket, grs)
      else shortLoop gSize bucket ((g + 1) mod length grs) grs)"
  by pat_completeness auto

text \<open>
  Termination: a step either pops the bucket or, some group having room, moves the
  counter one step closer to the next group with room (\<open>nextRoom\<close> steps away).
\<close>

definition nextRoom :: "int \<Rightarrow> nat \<Rightarrow> placed list list \<Rightarrow> nat" where
  "nextRoom gSize g grs = (LEAST k. int (length (grs ! ((g + k) mod length grs))) < gSize)"

termination shortLoop
proof (relation "measures [\<lambda>(gSize, bucket, g, grs). length bucket,
                           \<lambda>(gSize, bucket, g, grs). nextRoom gSize g grs]", goal_cases)
  case 1
  show ?case by simp
next
  case (2 gSize bucket g grs grs')
  then show ?case by (cases bucket rule: rev_cases) auto
next
  case (3 gSize bucket g grs)
  let ?n = "length grs"
  let ?P = "\<lambda>k. int (length (grs ! ((g + k) mod ?n))) < gSize"
  let ?Q = "\<lambda>k. int (length (grs ! (((g + 1) mod ?n + k) mod ?n))) < gSize"
  from 3 have g: "g < ?n" and full: "\<not> int (length (grs ! g)) < gSize"
    and notfull: "\<not> list_all (isFull gSize) grs" by auto
  from notfull obtain i where i: "i < ?n" "int (length (grs ! i)) < gSize"
    by (auto simp: list_all_length isFull_def)
  have "(g + (i + ?n - g)) mod ?n = i"
    using i g by simp
  with i have ex: "?P (i + ?n - g)" by simp
  define k0 where "k0 = (LEAST k. ?P k)"
  have Pk0: "?P k0" unfolding k0_def using ex by (rule LeastI)
  have "k0 \<noteq> 0"
  proof
    assume "k0 = 0"
    with Pk0 g full show False by simp
  qed
  then obtain k1 where k1: "k0 = Suc k1" by (cases k0) auto
  have "((g + 1) mod ?n + k1) mod ?n = (g + k0) mod ?n"
    unfolding k1 by (simp add: mod_simps)
  with Pk0 have "?Q k1" by simp
  then have "(LEAST k. ?Q k) \<le> k1" by (rule Least_le)
  then have "nextRoom gSize ((g + 1) mod ?n) grs < nextRoom gSize g grs"
    unfolding nextRoom_def k0_def [symmetric] k1 by simp
  then show ?case by simp
qed

declare shortLoop.simps [simp del]

text \<open>
  \<open>for (const p of programsWithShortage)\<close>: each bucket goes through the loop, the
  counter starting at 0.
\<close>

fun assignShort :: "int \<Rightarrow> string list \<Rightarrow> student buckets \<Rightarrow> placed list list
    \<Rightarrow> student buckets \<times> placed list list" where
  "assignShort gSize [] m grs = (m, grs)"
| "assignShort gSize (p # ps) m grs =
     (let (b, grs') = shortLoop gSize (getBucket m p) 0 grs
      in assignShort gSize ps (setBucket p b m) grs')"

text \<open>
  The remaining students. \<open>groups.sort((a, b) => a.length - b.length)\<close> sorts the array
  of groups in place by size; the sort is stable (ECMAScript 2019), as \<open>sort_key\<close> is.
  \<open>pushFirst\<close> is the inner \<open>for (const g of groups)\<close> with its \<open>break\<close>: the first
  group with room takes the student.
\<close>

fun pushFirst :: "int \<Rightarrow> student \<Rightarrow> placed list list \<Rightarrow> placed list list" where
  "pushFirst gSize s [] = []"
| "pushFirst gSize s (gr # grs) =
     (if int (length gr) < gSize then (gr @ [place s]) # grs
      else gr # pushFirst gSize s grs)"

fun distributeRest :: "int \<Rightarrow> student list \<Rightarrow> placed list list \<Rightarrow> placed list list" where
  "distributeRest gSize [] grs = grs"
| "distributeRest gSize (s # rest) grs =
     (let grs' = pushFirst gSize s (sort_key length grs)
      in if list_all (isFull gSize) grs' then grs' else distributeRest gSize rest grs')"

text \<open>
  \<open>groupsWithWarnings\<close>: each array of students becomes a group with its 1-based index
  and the programs that no student of the group has, \<open>null\<close> when there is none.
\<close>

definition missingOf :: "string list \<Rightarrow> placed list \<Rightarrow> string list option" where
  "missingOf progs studs =
     (let presentPrograms = set (map program studs);
          missing = filter (\<lambda>p. p \<notin> presentPrograms) progs
      in if length missing > 0 then Some missing else None)"

definition groupsWithWarnings :: "string list \<Rightarrow> placed list list \<Rightarrow> group list" where
  "groupsWithWarnings progs grs =
     map (\<lambda>(i, studs). \<lparr>index = i + 1, students = studs, missingPrograms = missingOf progs studs\<rparr>)
       (enumerate 0 grs)"

text \<open>
  \<open>groupStudents(students, groupSize, seed)\<close>. \<open>groupSize\<close> is an integer, \<open>seed\<close> an
  integer or absent, \<open>orc\<close> the \<open>Math.random\<close> of the environment. The sorted keys of
  \<open>programMap\<close> are compared as strings, as \<open>Array.prototype.sort\<close> without a
  comparator does.
\<close>

definition groupStudents :: "(nat \<Rightarrow> nat) \<Rightarrow> student list \<Rightarrow> int \<Rightarrow> int option
    \<Rightarrow> error + partition" where
  "groupStudents orc studs gSize seed =
     (if gSize \<le> 0 then Inl GroupSizeMustBePositive
      else let total = length studs in
      if total = 0 then Inl NoStudents
      else
        let programMap = buildProgramMap studs;
            progs = sort (map fst programMap);
            rng0 = mkRng orc seed;
            (programMap1, rng1) = shuffleBuckets progs programMap rng0;
            nGroups = nat (ceilDiv (int total) gSize);
            programsWithEnough = filter (\<lambda>p. length (getBucket programMap1 p) \<ge> nGroups) progs;
            programsWithShortage = filter (\<lambda>p. \<not> length (getBucket programMap1 p) \<ge> nGroups) progs;
            grs0 = replicate nGroups [];
            (programMap2, grs1) = assignEnough gSize programsWithEnough programMap1 grs0;
            (programMap3, grs2) = assignShort gSize programsWithShortage programMap2 grs1;
            (rest, rng2) = shuffleInPlace (concat (map (getBucket programMap3) progs)) rng1;
            grs3 = distributeRest gSize rest grs2
        in Inr \<lparr>groupSize = gSize, numGroups = nGroups, programs = progs,
                 groups = groupsWithWarnings progs grs3\<rparr>)"

section \<open>reshuffleRespectingLocksToGroupSize\<close>

text \<open>
  \<open>counts\<close> and \<open>queues\<close> are plain objects (\<open>{}\<close>) indexed by the program. The names
  that every object inherits from \<open>Object.prototype\<close> are therefore never absent:
  \<open>counts[p] || 0\<close> is then not a number, and the comparison with \<open>targetNumGroups\<close> is
  false; \<open>queues[p] ||= []\<close> keeps the inherited value, which has no \<open>push\<close>, and the
  call raises a \<open>TypeError\<close>.
\<close>

definition objectPrototypeKeys :: "string list" where
  "objectPrototypeKeys =
     [''constructor'', ''__defineGetter__'', ''__defineSetter__'', ''hasOwnProperty'',
      ''__lookupGetter__'', ''__lookupSetter__'', ''isPrototypeOf'', ''propertyIsEnumerable'',
      ''toString'', ''valueOf'', ''__proto__'', ''toLocaleString'']"

text \<open>
  The order in which \<open>Object.keys\<close> and \<open>for ... in\<close> enumerate the own keys of an
  object: the array indices (canonical decimal numerals below \<open>2^32 - 1\<close>) in ascending
  numeric order, then the other keys in insertion order.
\<close>

definition isDigit :: "char \<Rightarrow> bool" where
  "isDigit c = (48 \<le> (of_char c :: int) \<and> (of_char c :: int) \<le> 57)"

definition decimalValue :: "string \<Rightarrow> int" where
  "decimalValue s = foldl (\<lambda>n c. 10 * n + ((of_char c :: int) - 48)) 0 s"

definition isArrayIndex :: "string \<Rightarrow> bool" where
  "isArrayIndex s =
     (s \<noteq> [] \<and> list_all isDigit s \<and> (length s = 1 \<or> hd s \<noteq> CHR ''0'')
      \<and> decimalValue s < 4294967295)"

definition ownKeys :: "string list \<Rightarrow> string list" where
  "ownKeys ks = sort_key decimalValue (filter isArrayIndex ks) @ filter (\<lambda>k. \<not> isArrayIndex k) ks"

text \<open>\<open>{ ...s, locked: false }\<close> and \<open>{ name: s.name, program: s.program, locked: true }\<close>\<close>

definition asUnlocked :: "placed \<Rightarrow> placed" where
  "asUnlocked s = \<lparr>name = name s, program = program s, locked = False\<rparr>"

definition asLocked :: "placed \<Rightarrow> placed" where
  "asLocked s = \<lparr>name = name s, program = program s, locked = True\<rparr>"

text \<open>
  \<open>lockedGroups\<close>: the locked students of each group, the groups without a locked student
  left out.
\<close>

definition lockedGroupsOf :: "group list \<Rightarrow> placed list list" where
  "lockedGroupsOf grps =
     filter (\<lambda>l. length l > 0) (map (\<lambda>g. map asLocked (filter locked (students g))) grps)"

text \<open>
  Filling the missing programs of one target group: \<open>for (const p of missing)\<close>, with the
  \<open>break\<close> when the group is full and the \<open>continue\<close> when the queue of \<open>p\<close> is absent
  or empty.
\<close>

fun fillMissing :: "int \<Rightarrow> string list \<Rightarrow> placed buckets \<Rightarrow> placed list
    \<Rightarrow> placed buckets \<times> placed list" where
  "fillMissing gSize [] queues res = (queues, res)"
| "fillMissing gSize (p # ps) queues res =
     (if int (length res) \<ge> gSize then (queues, res)
      else if length (getBucket queues p) = 0 then fillMissing gSize ps queues res
      else fillMissing gSize ps (setBucket p (butlast (getBucket queues p)) queues)
             (res @ [asUnlocked (last (getBucket queues p))]))"

text \<open>
  \<open>for (let i = 0; i < targetNumGroups; i++)\<close>: the programs with enough students that
  \<open>presentPerGroup[i]\<close> lacks. When group \<open>i\<close> is reached it holds its locked students
  only, whose programs are \<open>presentPerGroup[i]\<close>.
\<close>

fun fillGroups :: "int \<Rightarrow> string list \<Rightarrow> placed buckets \<Rightarrow> placed list list
    \<Rightarrow> placed buckets \<times> placed list list" where
  "fillGroups gSize enough queues [] = (queues, [])"
| "fillGroups gSize enough queues (res # rest) =
     (let missing = filter (\<lambda>p. p \<notin> set (map program res)) enough;
          (queues1, res') = fillMissing gSize missing queues res;
          (queues2, rest') = fillGroups gSize enough queues1 rest
      in (queues2, res' # rest'))"

text \<open>
  \<open>targetOrder\<close>: the indices of the target groups, the groups without a locked student
  first, by size within each class; the sort is stable.
\<close>

definition targetOrder :: "placed list list \<Rightarrow> nat list" where
  "targetOrder res =
     sort_key (\<lambda>i. (list_ex locked (res ! i), length (res ! i))) [0..<length res]"

text \<open>
  The leftover students: each goes to the first group of \<open>targetOrder\<close> with room; when no
  group has room (\<open>placed\<close> stays false) the loop stops.
\<close>

fun placeFirst :: "int \<Rightarrow> placed \<Rightarrow> nat list \<Rightarrow> placed list list \<Rightarrow> placed list list option" where
  "placeFirst gSize s [] res = None"
| "placeFirst gSize s (idx # order) res =
     (if int (length (res ! idx)) < gSize then Some (res[idx := res ! idx @ [asUnlocked s]])
      else placeFirst gSize s order res)"

fun distributeLeftover :: "int \<Rightarrow> placed list \<Rightarrow> nat list \<Rightarrow> placed list list
    \<Rightarrow> placed list list" where
  "distributeLeftover gSize [] order res = res"
| "distributeLeftover gSize (s # rest) order res =
     (case placeFirst gSize s order res of
        None \<Rightarrow> res
      | Some res' \<Rightarrow> distributeLeftover gSize rest order res')"

text \<open>
  \<open>reshuffleRespectingLocksToGroupSize(groups, programs, groupSize, seed)\<close>, with
  \<open>groupSize\<close> an integer. \<open>totalStudents / groupSize\<close> is \<open>NaN\<close> for \<open>0 / 0\<close>, and every
  loop bounded by \<open>targetNumGroups\<close> is then empty; it is \<open>Infinity\<close> for a positive total
  and \<open>groupSize = 0\<close>, and \<open>Array.from({ length: Infinity })\<close> raises a \<open>RangeError\<close>.
\<close>

definition reshuffleRespectingLocksToGroupSize :: "(nat \<Rightarrow> nat) \<Rightarrow> group list \<Rightarrow> string list
    \<Rightarrow> int \<Rightarrow> int option \<Rightarrow> error + group list" where
  "reshuffleRespectingLocksToGroupSize orc grps progs gSize seed =
     (let rng0 = mkRng orc seed;
          totalStudents = foldl (\<lambda>acc g. acc + length (students g)) 0 grps
      in if gSize = 0 \<and> totalStudents = 0 then Inr []
      else if gSize = 0 then Inl RangeError
      else
        let targetNumGroups = nat (max 1 (ceilDiv (int totalStudents) gSize));
            lockedAll = filter locked (concat (map students grps));
            unlockedPool = map asUnlocked (filter (\<lambda>s. \<not> locked s) (concat (map students grps)));
            counts = (\<lambda>p. length (filter (\<lambda>s. program s = p) (lockedAll @ unlockedPool)));
            programsWithEnough =
              filter (\<lambda>p. p \<notin> set objectPrototypeKeys \<and> counts p \<ge> targetNumGroups) progs;
            lockedGroups = lockedGroupsOf grps
        in if length lockedGroups > targetNumGroups then Inl TooManyLockedGroups
        else if list_ex (\<lambda>s. program s \<in> set objectPrototypeKeys) unlockedPool then Inl TypeError
        else
          let res0 = lockedGroups @ replicate (targetNumGroups - length lockedGroups) [];
              queues = fold (\<lambda>s q. pushTo (program s) s q) unlockedPool [];
              keys = ownKeys (map fst queues);
              (queues1, rng1) = shuffleBuckets keys queues rng0;
              (queues2, res1) = fillGroups gSize programsWithEnough queues1 res0;
              (leftover, rng2) = shuffleInPlace (concat (map (getBucket queues2) keys)) rng1;
              res2 = distributeLeftover gSize leftover (targetOrder res1) res1
          in Inr (groupsWithWarnings progs res2))"

section \<open>lockedStayInPlace\<close>

text \<open>The identity of a student: \<open>`${s.name}:::${s.program}`\<close>.\<close>

definition key :: "placed \<Rightarrow> string" where
  "key s = name s @ '':::'' @ program s"

text \<open>A JavaScript \<open>Set\<close> built from an array: its distinct elements, first occurrences.\<close>

definition jsSet :: "'a list \<Rightarrow> 'a list" where
  "jsSet xs = rev (remdups (rev xs))"

text \<open>
  \<open>prevGroups.forEach\<close>: the set of the keys of the locked students of each group; a
  non-empty set is pushed on \<open>cohorts\<close> and each of its keys is mapped to the new cohort
  in \<open>keyToCohort\<close>, replacing an earlier entry.
\<close>

fun buildCohorts :: "group list \<Rightarrow> string list list \<Rightarrow> (string \<rightharpoonup> nat)
    \<Rightarrow> string list list \<times> (string \<rightharpoonup> nat)" where
  "buildCohorts [] cohorts keyToCohort = (cohorts, keyToCohort)"
| "buildCohorts (g # gs) cohorts keyToCohort =
     (let ks = jsSet (map key (filter locked (students g)))
      in if length ks > 0
         then buildCohorts gs (cohorts @ [ks]) (fold (\<lambda>k m. m(k \<mapsto> length cohorts)) ks keyToCohort)
         else buildCohorts gs cohorts keyToCohort)"

text \<open>
  The loop over \<open>nextGroups\<close> with its three \<open>return false\<close>, and the final
  \<open>satisfied.every(Boolean)\<close>.
\<close>

fun checkNext :: "string list list \<Rightarrow> (string \<rightharpoonup> nat) \<Rightarrow> bool list \<Rightarrow> group list \<Rightarrow> bool" where
  "checkNext cohorts keyToCohort satisfied [] = list_all (\<lambda>b. b) satisfied"
| "checkNext cohorts keyToCohort satisfied (g # gs) =
     (let lockedKeys = map key (filter locked (students g));
          cohortIdsInGroup = jsSet (List.map_filter keyToCohort lockedKeys)
      in if length cohortIdsInGroup > 1 then False
         else if length cohortIdsInGroup = 1 then
           (let cid = hd cohortIdsInGroup
            in if list_ex (\<lambda>k. k \<notin> set lockedKeys) (cohorts ! cid) then False
               else if satisfied ! cid then False
               else checkNext cohorts keyToCohort (satisfied[cid := True]) gs)
         else checkNext cohorts keyToCohort satisfied gs)"

definition lockedStayInPlace :: "group list \<Rightarrow> group list \<Rightarrow> bool" where
  "lockedStayInPlace prevGroups nextGroups =
     (let (cohorts, keyToCohort) = buildCohorts prevGroups [] Map.empty
      in if length cohorts = 0 then True
         else checkNext cohorts keyToCohort (replicate (length cohorts) False) nextGroups)"

text \<open>
  The set of keys that \<open>lockedStayInPlace\<close> builds for one group of \<open>prevGroups\<close>: the
  cohort of the group, when it is not empty.
\<close>

definition cohortKeys :: "group \<Rightarrow> string list" where
  "cohortKeys g = jsSet (map key (filter locked (students g)))"

section \<open>applyNewGroupSize\<close>

text \<open>
  The banners that \<open>showGroupBanner\<close> shows when a group size is refused, by their
  reason (\<open>WouldRemoveLockedGroups\<close> is shown by the submit handler only), and the caller
  of the two functions above when the group size changes. \<open>stateGroups\<close> is
  \<open>state.groups\<close>, \<open>payload\<close> the groups that \<open>currentPayload()\<close> reads from the page
  (with the locks the user set), \<open>progs\<close> is \<open>state.programs\<close>. Every early \<open>return\<close>
  after \<open>showGroupBanner\<close> is \<open>Refused\<close> with the banner shown (an exception caught is
  shown as it is); \<open>SizeSet\<close> is the case without groups, where only the size is
  stored; \<open>Applied\<close> carries the groups stored in \<open>state.groups\<close> and rendered.
  The tentative reshuffle and the final one each draw from \<open>Math.random\<close> when there is
  no seed: \<open>orc\<close> and \<open>orc'\<close> are their draws.
\<close>

datatype banner =
    SizeBelowOne
  | MoreLockedThanSize
  | WouldSplitOrMoveLocked
  | WouldMoveLocked
  | WouldRemoveLockedGroups
  | Thrown error

datatype outcome = Refused banner | SizeSet | Applied "group list"

definition applyNewGroupSize :: "(nat \<Rightarrow> nat) \<Rightarrow> (nat \<Rightarrow> nat) \<Rightarrow> group list \<Rightarrow> group list
    \<Rightarrow> string list \<Rightarrow> int \<Rightarrow> int option \<Rightarrow> outcome" where
  "applyNewGroupSize orc orc' stateGroups payload progs newSize seed =
     (if newSize < 1 then Refused SizeBelowOne
      else if length stateGroups = 0 then SizeSet
      else if length (filter (\<lambda>g. int (length (filter locked (students g))) > newSize) payload) > 0
        then Refused MoreLockedThanSize
      else
        let totalStudents = foldl (\<lambda>acc g. acc + length (students g)) 0 payload;
            targetNumGroups = nat (max 1 (ceilDiv (int totalStudents) newSize));
            currentNumGroups = length payload;
            tentative =
              (if targetNumGroups < currentNumGroups
               then (case reshuffleRespectingLocksToGroupSize orc payload progs newSize seed of
                       Inl err \<Rightarrow> Some (Thrown err)
                     | Inr grps \<Rightarrow>
                         if \<not> lockedStayInPlace payload grps then Some WouldSplitOrMoveLocked
                         else None)
               else None)
        in case tentative of
             Some b \<Rightarrow> Refused b
           | None \<Rightarrow>
               (case reshuffleRespectingLocksToGroupSize orc' payload progs newSize seed of
                  Inl err \<Rightarrow> Refused (Thrown err)
                | Inr grps \<Rightarrow>
                    if \<not> lockedStayInPlace payload grps then Refused WouldMoveLocked
                    else Applied grps))"

section \<open>parseCSV\<close>

text \<open>
  Characters are 8-bit code units. \<open>trim\<close> removes the white space and line terminators
  of JavaScript among them; \<open>toLowerCase\<close> maps the upper-case letters among them.
\<close>

definition isSpace :: "char \<Rightarrow> bool" where
  "isSpace c = ((of_char c :: int) \<in> set [9, 10, 11, 12, 13, 32, 160])"

definition trim :: "string \<Rightarrow> string" where
  "trim s = rev (dropWhile isSpace (rev (dropWhile isSpace s)))"

definition lowerChar :: "char \<Rightarrow> char" where
  "lowerChar c =
     (let n = (of_char c :: int)
      in if (65 \<le> n \<and> n \<le> 90) \<or> (192 \<le> n \<and> n \<le> 222 \<and> n \<noteq> 215)
         then char_of (n + 32) else c)"

definition toLowerCase :: "string \<Rightarrow> string" where
  "toLowerCase s = map lowerChar s"

text \<open>\<open>s.split(',')\<close> and \<open>text.split(/\\r?\\n/)\<close>\<close>

fun consHead :: "char \<Rightarrow> string list \<Rightarrow> string list" where
  "consHead c [] = [[c]]"
| "consHead c (w # ws) = (c # w) # ws"

fun splitOn :: "char \<Rightarrow> string \<Rightarrow> string list" where
  "splitOn sep [] = [[]]"
| "splitOn sep (c # cs) = (if c = sep then [] # splitOn sep cs else consHead c (splitOn sep cs))"

fun splitLines :: "string \<Rightarrow> string list" where
  "splitLines [] = [[]]"
| "splitLines [c] = (if c = CHR 0x0A then [[], []] else [[c]])"
| "splitLines (c # d # cs) =
     (if c = CHR 0x0A then [] # splitLines (d # cs)
      else if c = CHR 0x0D \<and> d = CHR 0x0A then [] # splitLines cs
      else consHead c (splitLines (d # cs)))"

definition nameAliases :: "string list" where
  "nameAliases = [''name'', ''student'', ''student_name'', ''student name'']"

definition programAliases :: "string list" where
  "programAliases =
     [''program'', ''programme'', ''study_program'', ''study programme'', ''studyprogram'', ''major'']"

text \<open>
  The loop over the header: the index of the last column whose header is an alias,
  \<open>-1\<close> when there is none.
\<close>

definition aliasIdx :: "string list \<Rightarrow> string list \<Rightarrow> int" where
  "aliasIdx aliases header =
     fold (\<lambda>(i, h) idx. if h \<in> set aliases then int i else idx) (enumerate 0 header) (- 1)"

text \<open>\<open>(row[idx] || '').trim()\<close>\<close>

definition cell :: "string list \<Rightarrow> int \<Rightarrow> string" where
  "cell row idx = trim (if 0 \<le> idx \<and> idx < int (length row) then row ! nat idx else [])"

definition parseCSV :: "string \<Rightarrow> error + student list" where
  "parseCSV csv =
     (let lns = filter (\<lambda>l. length (trim l) > 0) (splitLines csv)
      in if length lns = 0 then Inl CsvIsEmpty
      else
        let headerRaw = splitOn (CHR '','') (hd lns);
            header = map (\<lambda>s. toLowerCase (trim s)) headerRaw;
            nameIdx = aliasIdx nameAliases header;
            progIdx = aliasIdx programAliases header
        in if (nameIdx = - 1 \<or> progIdx = - 1) \<and> \<not> length header \<ge> 2 then Inl MissingHeader
        else
          let nameIdx' = (if nameIdx = - 1 \<or> progIdx = - 1 then 0 else nameIdx);
              progIdx' = (if nameIdx = - 1 \<or> progIdx = - 1 then 1 else progIdx);
              studs = List.map_filter
                (\<lambda>l. let row = splitOn (CHR '','') l;
                          nm = cell row nameIdx';
                          pr = cell row progIdx'
                      in if nm = [] \<or> pr = [] then None else Some \<lparr>name = nm, program = pr\<rparr>)
                (tl lns)
          in if length studs = 0 then Inl NoStudentsFoundInCsv else Inr studs)"

section \<open>The submit handler\<close>



section \<open>Example inputs\<close>

text \<open>Six students of three programs, two of each.\<close>

definition exampleStudents :: "student list" where
  "exampleStudents =
     [\<lparr>name = ''A'', program = ''CS''\<rparr>, \<lparr>name = ''B'', program = ''Math''\<rparr>,
      \<lparr>name = ''C'', program = ''Physics''\<rparr>, \<lparr>name = ''D'', program = ''CS''\<rparr>,
      \<lparr>name = ''E'', program = ''Math''\<rparr>, \<lparr>name = ''F'', program = ''Physics''\<rparr>]"

text \<open>
  What \<open>groupStudents\<close> returns for these students: with the group size 3 and the
  seed 1, with the group size 3 and no seed when every draw of \<open>Math.random\<close> is 0, and
  with the group size 2 and the seed 1.
\<close>

definition exampleBuilt :: partition where
  "exampleBuilt =
     \<lparr>groupSize = 3, numGroups = 2, programs = [''CS'', ''Math'', ''Physics''],
      groups =
        [\<lparr>index = 1,
           students = [\<lparr>name = ''D'', program = ''CS'', locked = False\<rparr>,
                       \<lparr>name = ''B'', program = ''Math'', locked = False\<rparr>,
                       \<lparr>name = ''F'', program = ''Physics'', locked = False\<rparr>],
           missingPrograms = None\<rparr>,
         \<lparr>index = 2,
           students = [\<lparr>name = ''A'', program = ''CS'', locked = False\<rparr>,
                       \<lparr>name = ''E'', program = ''Math'', locked = False\<rparr>,
                       \<lparr>name = ''C'', program = ''Physics'', locked = False\<rparr>],
           missingPrograms = None\<rparr>]\<rparr>"

definition exampleBuiltUnseeded :: partition where
  "exampleBuiltUnseeded =
     \<lparr>groupSize = 3, numGroups = 2, programs = [''CS'', ''Math'', ''Physics''],
      groups =
        [\<lparr>index = 1,
           students = [\<lparr>name = ''A'', program = ''CS'', locked = False\<rparr>,
                       \<lparr>name = ''B'', program = ''Math'', locked = False\<rparr>,
                       \<lparr>name = ''C'', program = ''Physics'', locked = False\<rparr>],
           missingPrograms = None\<rparr>,
         \<lparr>index = 2,
           students = [\<lparr>name = ''D'', program = ''CS'', locked = False\<rparr>,
                       \<lparr>name = ''E'', program = ''Math'', locked = False\<rparr>,
                       \<lparr>name = ''F'', program = ''Physics'', locked = False\<rparr>],
           missingPrograms = None\<rparr>]\<rparr>"

definition exampleBuiltSmall :: partition where
  "exampleBuiltSmall =
     \<lparr>groupSize = 2, numGroups = 3, programs = [''CS'', ''Math'', ''Physics''],
      groups =
        [\<lparr>index = 1,
           students = [\<lparr>name = ''D'', program = ''CS'', locked = False\<rparr>,
                       \<lparr>name = ''B'', program = ''Math'', locked = False\<rparr>],
           missingPrograms = Some [''Physics'']\<rparr>,
         \<lparr>index = 2,
           students = [\<lparr>name = ''A'', program = ''CS'', locked = False\<rparr>,
                       \<lparr>name = ''E'', program = ''Math'', locked = False\<rparr>],
           missingPrograms = Some [''Physics'']\<rparr>,
         \<lparr>index = 3,
           students = [\<lparr>name = ''F'', program = ''Physics'', locked = False\<rparr>,
                       \<lparr>name = ''C'', program = ''Physics'', locked = False\<rparr>],
           missingPrograms = Some [''CS'', ''Math'']\<rparr>]\<rparr>"

text \<open>
  A partition of the six students into two groups of three, one student locked in each
  group, as \<open>currentPayload\<close> reads it from the page.
\<close>

definition exampleGroups :: "group list" where
  "exampleGroups =
     [\<lparr>index = 1,
        students = [\<lparr>name = ''A'', program = ''CS'', locked = True\<rparr>,
                    \<lparr>name = ''B'', program = ''Math'', locked = False\<rparr>,
                    \<lparr>name = ''C'', program = ''Physics'', locked = False\<rparr>],
        missingPrograms = None\<rparr>,
      \<lparr>index = 2,
        students = [\<lparr>name = ''D'', program = ''CS'', locked = False\<rparr>,
                    \<lparr>name = ''E'', program = ''Math'', locked = True\<rparr>,
                    \<lparr>name = ''F'', program = ''Physics'', locked = False\<rparr>],
        missingPrograms = None\<rparr>]"

text \<open>
  What \<open>reshuffleRespectingLocksToGroupSize\<close> returns for \<open>exampleGroups\<close>, the group
  size 2 and the seed 1.
\<close>

definition exampleReshuffled :: "group list" where
  "exampleReshuffled =
     [\<lparr>index = 1,
        students = [\<lparr>name = ''A'', program = ''CS'', locked = True\<rparr>,
                    \<lparr>name = ''C'', program = ''Physics'', locked = False\<rparr>],
        missingPrograms = Some [''Math'']\<rparr>,
      \<lparr>index = 2,
        students = [\<lparr>name = ''E'', program = ''Math'', locked = True\<rparr>,
                    \<lparr>name = ''B'', program = ''Math'', locked = False\<rparr>],
        missingPrograms = Some [''CS'', ''Physics'']\<rparr>,
      \<lparr>index = 3,
        students = [\<lparr>name = ''D'', program = ''CS'', locked = False\<rparr>,
                    \<lparr>name = ''F'', program = ''Physics'', locked = False\<rparr>],
        missingPrograms = Some [''Math'']\<rparr>]"

text \<open>
  Two groups, each with one locked student, the two students having the same name and
  the same program.
\<close>

definition exampleDuplicates :: "group list" where
  "exampleDuplicates =
     [\<lparr>index = 1, students = [\<lparr>name = ''A'', program = ''CS'', locked = True\<rparr>],
        missingPrograms = None\<rparr>,
      \<lparr>index = 2, students = [\<lparr>name = ''A'', program = ''CS'', locked = True\<rparr>],
        missingPrograms = None\<rparr>]"



text \<open>A CSV text with a header of three columns, none of them a recognized alias.\<close>

definition csvThreeColumns :: string where
  "csvThreeColumns = ''a,b,c'' @ [CHR 0x0A] @ ''x,y,z''"

section \<open>Properties of the shuffle and of the buckets\<close>

lemma draw_less: "0 < n \<Longrightarrow> fst (draw r n) < n"
proof (cases r)
  case (Seeded a)
  assume n: "0 < n"
  obtain a' u where m: "mulberry32 a = (a', u)" by (cases "mulberry32 a")
  have "uint u < 2 ^ 32" using uint_bounded [of u] by simp
  then have "uint u * int n < 2 ^ 32 * int n" using n by simp
  then have "uint u * int n div 2 ^ 32 < int n"
    by (simp add: div_less_iff_less_mult mult.commute)
  moreover have "0 \<le> uint u * int n div 2 ^ 32" by (simp add: pos_imp_zdiv_nonneg_iff)
  ultimately have "nat (uint u * int n div 2 ^ 32) < n" by (simp add: nat_less_iff)
  then show ?thesis using Seeded m by simp
next
  case (Unseeded orc k)
  assume "0 < n"
  then show ?thesis using Unseeded by simp
qed

lemma shuffleFrom_mset: "i < length arr \<Longrightarrow> mset (fst (shuffleFrom i arr r)) = mset arr"
proof (induction i arbitrary: arr r)
  case 0
  then show ?case by simp
next
  case (Suc i)
  obtain j r' where d: "draw r (Suc i + 1) = (j, r')" by (cases "draw r (Suc i + 1)")
  have "fst (draw r (Suc i + 1)) < Suc i + 1" by (rule draw_less) simp
  with d have j: "j < length arr" using Suc.prems by simp
  let ?arr = "arr[Suc i := arr ! j, j := arr ! Suc i]"
  have sw: "mset ?arr = mset arr" using Suc.prems j by (simp add: mset_swap)
  have "i < length ?arr" using Suc.prems by simp
  from Suc.IH [OF this] sw d show ?case by simp
qed

lemma shuffleInPlace_mset: "mset (fst (shuffleInPlace arr r)) = mset arr"
proof (cases arr)
  case Nil
  then show ?thesis by (simp add: shuffleInPlace_def)
next
  case (Cons a as)
  then have "length arr - 1 < length arr" by simp
  then show ?thesis unfolding shuffleInPlace_def by (rule shuffleFrom_mset)
qed

lemma keys_setBucket: "map fst (setBucket p b m) = map fst m"
  by (induction m) auto

lemma getBucket_setBucket_same: "p \<in> fst ` set m \<Longrightarrow> getBucket (setBucket p b m) p = b"
  by (induction p b m rule: setBucket.induct) (auto simp: getBucket_def)

lemma getBucket_setBucket_other: "q \<noteq> p \<Longrightarrow> getBucket (setBucket p b m) q = getBucket m q"
  by (induction m) (auto simp: getBucket_def)

lemma getBucket_absent: "p \<notin> fst ` set m \<Longrightarrow> getBucket m p = []"
  by (induction m) (auto simp: getBucket_def)

lemma remaining_setBucket:
  "distinct ks \<Longrightarrow> p \<in> set ks \<Longrightarrow> p \<in> fst ` set m \<Longrightarrow>
     mset (concat (map (getBucket (setBucket p b m)) ks)) + mset (getBucket m p)
       = mset (concat (map (getBucket m) ks)) + mset b"
proof (induction ks)
  case Nil
  then show ?case by simp
next
  case (Cons k ks)
  show ?case
  proof (cases "k = p")
    case True
    with Cons.prems have "p \<notin> set ks" by simp
    then have "concat (map (getBucket (setBucket p b m)) ks) = concat (map (getBucket m) ks)"
      by (intro arg_cong [where f = concat] map_cong) (auto intro!: getBucket_setBucket_other)
    with True Cons.prems show ?thesis by (simp add: getBucket_setBucket_same)
  next
    case False
    with Cons show ?thesis by (simp add: getBucket_setBucket_other)
  qed
qed

lemma getBucket_pushTo:
  "getBucket (pushTo p s m) q = (if q = p then getBucket m p @ [s] else getBucket m q)"
  by (induction m) (auto simp: getBucket_def)

lemma keys_pushTo: "set (map fst (pushTo p s m)) = insert p (set (map fst m))"
  by (induction p s m rule: pushTo.induct) auto

lemma distinct_pushTo: "distinct (map fst m) \<Longrightarrow> distinct (map fst (pushTo p s m))"
proof (induction m)
  case Nil
  then show ?case by simp
next
  case (Cons a m)
  obtain q c where a: "a = (q, c)" by (cases a)
  with Cons keys_pushTo [of p s m] show ?case by auto
qed

lemma fold_pushTo:
  "getBucket (fold (\<lambda>s m. pushTo (f s) s m) xs m) q = getBucket m q @ filter (\<lambda>s. f s = q) xs"
  by (induction xs arbitrary: m) (auto simp: getBucket_pushTo)

lemma fold_pushTo_keys:
  "set (map fst (fold (\<lambda>s m. pushTo (f s) s m) xs m)) = set (map fst m) \<union> f ` set xs"
  by (induction xs arbitrary: m) (auto simp: keys_pushTo simp del: set_map)

lemma fold_pushTo_distinct:
  "distinct (map fst m) \<Longrightarrow> distinct (map fst (fold (\<lambda>s m. pushTo (f s) s m) xs m))"
  by (induction xs arbitrary: m) (auto simp: distinct_pushTo)

lemma setBucket_absent: "p \<notin> fst ` set m \<Longrightarrow> setBucket p b m = m"
  by (induction p b m rule: setBucket.induct) auto

lemma getBucket_setBucket_mset:
  assumes "mset b = mset (getBucket m p)"
  shows "mset (getBucket (setBucket p b m) q) = mset (getBucket m q)"
proof (cases "p \<in> fst ` set m")
  case True
  with assms show ?thesis
    by (cases "q = p") (simp_all add: getBucket_setBucket_same getBucket_setBucket_other)
next
  case False
  then show ?thesis by (simp add: setBucket_absent)
qed

lemma shuffleBuckets_keys: "map fst (fst (shuffleBuckets ps m r)) = map fst m"
  by (induction ps arbitrary: m r) (auto simp: keys_setBucket split: prod.splits)

lemma shuffleBuckets_mset:
  "mset (getBucket (fst (shuffleBuckets ps m r)) q) = mset (getBucket m q)"
proof (induction ps arbitrary: m r)
  case Nil
  then show ?case by simp
next
  case (Cons p ps)
  obtain b r' where sh: "shuffleInPlace (getBucket m p) r = (b, r')"
    by (cases "shuffleInPlace (getBucket m p) r")
  have "mset b = mset (getBucket m p)"
    using shuffleInPlace_mset [of "getBucket m p" r] sh by simp
  then have "mset (getBucket (setBucket p b m) q) = mset (getBucket m q)"
    by (rule getBucket_setBucket_mset)
  with Cons.IH [of "setBucket p b m" r'] sh show ?case by simp
qed

lemma concat_cong_mset:
  "(\<And>q. q \<in> set ks \<Longrightarrow> mset (f q) = mset (g q)) \<Longrightarrow>
     mset (concat (map f ks)) = mset (concat (map g ks))"
  by (induction ks) auto

lemma concat_update_append:
  "g < length grs \<Longrightarrow> mset (concat (grs[g := grs ! g @ [x]])) = mset (concat grs) + {#x#}"
  by (induction grs arbitrary: g) (auto split: nat.splits)

lemma pop_mset: "bucket \<noteq> [] \<Longrightarrow> mset (butlast bucket) + {#last bucket#} = mset bucket"
  by (cases bucket rule: rev_cases) auto

lemma enoughPass_conserve:
  "mset (map place (fst (enoughPass gSize bucket grs))) + mset (concat (snd (enoughPass gSize bucket grs)))
     = mset (map place bucket) + mset (concat grs)"
proof (induction grs arbitrary: bucket)
  case Nil
  then show ?case by simp
next
  case (Cons gr grs)
  show ?case
  proof (cases "int (length gr) < gSize \<and> length bucket > 0")
    case True
    then have "bucket \<noteq> []" by auto
    from pop_mset [OF this]
    have "mset (map place bucket) = mset (map place (butlast bucket)) + {#place (last bucket)#}"
      by (metis image_mset_single image_mset_union mset_map)
    with Cons.IH [of "butlast bucket"] True show ?thesis
      by (simp add: split_beta)
  next
    case False
    with Cons.IH [of bucket] show ?thesis by (auto simp: split_beta)
  qed
qed

lemma enoughPass_length: "length (snd (enoughPass gSize bucket grs)) = length grs"
  by (induction grs arbitrary: bucket) (simp_all add: split_beta)

lemma enoughPass_grow:
  assumes "\<forall>g\<in>set grs. Q g"
    and "\<And>g s. Q g \<Longrightarrow> int (length g) < gSize \<Longrightarrow> Q (g @ [place s])"
  shows "\<forall>g\<in>set (snd (enoughPass gSize bucket grs)). Q g"
  using assms(1)
proof (induction grs arbitrary: bucket)
  case Nil
  then show ?case by simp
next
  case (Cons gr grs)
  from Cons.prems have Qgr: "Q gr" and Qs: "\<forall>g\<in>set grs. Q g" by auto
  note IH1 = Cons.IH [OF Qs, of "butlast bucket"] and IH2 = Cons.IH [OF Qs, of bucket]
  show ?case
  proof (cases "int (length gr) < gSize \<and> length bucket > 0")
    case True
    then have "Q (gr @ [place (last bucket)])" using assms(2) [OF Qgr] by simp
    with IH1 True show ?thesis by (simp add: split_beta)
  next
    case False
    with IH2 Qgr show ?thesis by (auto simp: split_beta)
  qed
qed

lemma enoughPass_all:
  assumes "\<forall>g\<in>set grs. int (length g) < gSize" and "length grs \<le> length bucket"
  shows "list_all2 (\<lambda>g g'. \<exists>s\<in>set bucket. g' = g @ [place s]) grs
           (snd (enoughPass gSize bucket grs))"
  using assms
proof (induction grs arbitrary: bucket)
  case Nil
  then show ?case by simp
next
  case (Cons gr grs)
  from Cons.prems have ne: "bucket \<noteq> []" by auto
  then have len: "length grs \<le> length (butlast bucket)" using Cons.prems by simp
  have sub: "set (butlast bucket) \<subseteq> set bucket" by (auto dest: in_set_butlastD)
  have "list_all2 (\<lambda>g g'. \<exists>s\<in>set (butlast bucket). g' = g @ [place s]) grs
          (snd (enoughPass gSize (butlast bucket) grs))"
    using Cons.IH [OF _ len] Cons.prems by simp
  then have "list_all2 (\<lambda>g g'. \<exists>s\<in>set bucket. g' = g @ [place s]) grs
          (snd (enoughPass gSize (butlast bucket) grs))"
    by (rule list_all2_mono) (use sub in auto)
  moreover have "last bucket \<in> set bucket" using ne by simp
  ultimately show ?case using Cons.prems ne by (auto simp: split_beta)
qed

lemma step_conserve:
  assumes "distinct ks" and "p \<in> set ks" and "p \<in> fst ` set m"
    and step: "mset (map f b) + X' = mset (map f (getBucket m p)) + X"
  shows "mset (map f (concat (map (getBucket (setBucket p b m)) ks))) + X'
           = mset (map f (concat (map (getBucket m) ks))) + X"
proof (rule multiset_eqI)
  fix x
  from remaining_setBucket [OF assms(1-3), of b]
  have "image_mset f (mset (concat (map (getBucket (setBucket p b m)) ks)) + mset (getBucket m p))
          = image_mset f (mset (concat (map (getBucket m) ks)) + mset b)"
    by simp
  then have "count (mset (map f (concat (map (getBucket (setBucket p b m)) ks)))
                 + mset (map f (getBucket m p))) x
          = count (mset (map f (concat (map (getBucket m) ks))) + mset (map f b)) x"
    by simp
  moreover from step have "count (mset (map f b) + X') x
          = count (mset (map f (getBucket m p)) + X) x"
    by simp
  ultimately show "count (mset (map f (concat (map (getBucket (setBucket p b m)) ks))) + X') x
          = count (mset (map f (concat (map (getBucket m) ks))) + X) x"
    by simp
qed

lemma assignEnough_keys: "map fst (fst (assignEnough gSize ps m grs)) = map fst m"
  by (induction ps arbitrary: m grs) (simp_all add: split_beta keys_setBucket)

lemma assignEnough_length: "length (snd (assignEnough gSize ps m grs)) = length grs"
  by (induction ps arbitrary: m grs) (simp_all add: split_beta enoughPass_length)

lemma assignEnough_conserve:
  assumes "distinct ks" and "set ps \<subseteq> set ks" and "set ps \<subseteq> fst ` set m"
  shows "mset (map place (concat (map (getBucket (fst (assignEnough gSize ps m grs))) ks)))
           + mset (concat (snd (assignEnough gSize ps m grs)))
         = mset (map place (concat (map (getBucket m) ks))) + mset (concat grs)"
  using assms(2,3)
proof (induction ps arbitrary: m grs)
  case Nil
  then show ?case by simp
next
  case (Cons p ps)
  let ?b = "fst (enoughPass gSize (getBucket m p) grs)"
  let ?grs = "snd (enoughPass gSize (getBucket m p) grs)"
  from Cons.prems have p: "p \<in> set ks" "p \<in> fst ` set m" by auto
  have keys: "fst ` set (setBucket p ?b m) = fst ` set m"
    using keys_setBucket [of p ?b m] by (metis set_map)
  have "mset (map place (concat (map (getBucket (setBucket p ?b m)) ks))) + mset (concat ?grs)
          = mset (map place (concat (map (getBucket m) ks))) + mset (concat grs)"
    using assms(1) p enoughPass_conserve by (rule step_conserve)
  moreover have "mset (map place (concat (map (getBucket (fst (assignEnough gSize ps (setBucket p ?b m) ?grs))) ks)))
           + mset (concat (snd (assignEnough gSize ps (setBucket p ?b m) ?grs)))
         = mset (map place (concat (map (getBucket (setBucket p ?b m)) ks))) + mset (concat ?grs)"
    using Cons.prems keys by (intro Cons.IH) auto
  ultimately show ?case by (simp add: split_beta)
qed

lemma assignEnough_grow:
  assumes "\<forall>g\<in>set grs. Q g"
    and "\<And>g s. Q g \<Longrightarrow> int (length g) < gSize \<Longrightarrow> Q (g @ [place s])"
  shows "\<forall>g\<in>set (snd (assignEnough gSize ps m grs)). Q g"
  using assms(1)
proof (induction ps arbitrary: m grs)
  case Nil
  then show ?case by simp
next
  case (Cons p ps)
  have "\<forall>g\<in>set (snd (enoughPass gSize (getBucket m p) grs)). Q g"
    using Cons.prems assms(2) by (rule enoughPass_grow)
  from Cons.IH [OF this] show ?case by (simp add: split_beta)
qed

lemma shortLoop_conserve:
  "mset (map place (fst (shortLoop gSize bucket g grs))) + mset (concat (snd (shortLoop gSize bucket g grs)))
     = mset (map place bucket) + mset (concat grs)"
proof (induction gSize bucket g grs rule: shortLoop.induct)
  case (1 gSize bucket g grs)
  let ?grs' = "grs[g := grs ! g @ [place (last bucket)]]"
  note eq = shortLoop.simps [of gSize bucket g grs]
  show ?case
  proof (cases "length bucket > 0 \<and> g < length grs")
    case False
    then show ?thesis using eq by auto
  next
    case True
    then have ne: "bucket \<noteq> []" and g: "g < length grs" by auto
    from pop_mset [OF ne]
    have pop: "mset (map place bucket) = mset (map place (butlast bucket)) + {#place (last bucket)#}"
      by (metis image_mset_single image_mset_union mset_map)
    have upd: "mset (concat ?grs') = mset (concat grs) + {#place (last bucket)#}"
      using g by (rule concat_update_append)
    show ?thesis
    proof (cases "int (length (grs ! g)) < gSize")
      case room: True
      show ?thesis
      proof (cases "list_all (isFull gSize) ?grs'")
        case True
        with room ne g have "shortLoop gSize bucket g grs = (butlast bucket, ?grs')"
          using eq by (simp add: Let_def)
        with pop upd show ?thesis by simp
      next
        case False
        with room ne g have "shortLoop gSize bucket g grs
            = shortLoop gSize (butlast bucket) ((g + 1) mod length grs) ?grs'"
          using eq by (simp add: Let_def)
        moreover from "1.IH"(1) [OF _ _ room refl False] ne g
        have "mset (map place (fst (shortLoop gSize (butlast bucket) ((g + 1) mod length grs) ?grs')))
                + mset (concat (snd (shortLoop gSize (butlast bucket) ((g + 1) mod length grs) ?grs')))
              = mset (map place (butlast bucket)) + mset (concat ?grs')"
          by simp
        ultimately show ?thesis using pop upd by simp
      qed
    next
      case noroom: False
      show ?thesis
      proof (cases "list_all (isFull gSize) grs")
        case True
        with noroom ne g have "shortLoop gSize bucket g grs = (bucket, grs)"
          using eq by simp
        then show ?thesis by simp
      next
        case False
        with noroom ne g have "shortLoop gSize bucket g grs
            = shortLoop gSize bucket ((g + 1) mod length grs) grs"
          using eq by simp
        moreover from "1.IH"(2) [OF _ _ noroom False] ne g
        have "mset (map place (fst (shortLoop gSize bucket ((g + 1) mod length grs) grs)))
                + mset (concat (snd (shortLoop gSize bucket ((g + 1) mod length grs) grs)))
              = mset (map place bucket) + mset (concat grs)"
          by simp
        ultimately show ?thesis by simp
      qed
    qed
  qed
qed

lemma shortLoop_grow:
  assumes "\<And>g s. Q g \<Longrightarrow> int (length g) < gSize \<Longrightarrow> Q (g @ [place s])"
  shows "\<forall>gr\<in>set grs. Q gr \<Longrightarrow> length (snd (shortLoop gSize bucket g grs)) = length grs
           \<and> (\<forall>gr\<in>set (snd (shortLoop gSize bucket g grs)). Q gr)"
  using assms
proof (induction gSize bucket g grs rule: shortLoop.induct)
  case (1 gSize bucket g grs)
  let ?grs' = "grs[g := grs ! g @ [place (last bucket)]]"
  note eq = shortLoop.simps [of gSize bucket g grs]
  note step = "1.prems"(2)
  show ?case
  proof (cases "length bucket > 0 \<and> g < length grs")
    case False
    then show ?thesis using eq "1.prems"(1) by auto
  next
    case True
    then have ne: "bucket \<noteq> []" and g: "g < length grs" by auto
    show ?thesis
    proof (cases "int (length (grs ! g)) < gSize")
      case room: True
      have "Q (grs ! g)" using "1.prems"(1) g by simp
      then have "Q (grs ! g @ [place (last bucket)])" using room by (rule step)
      then have Q': "\<forall>gr\<in>set ?grs'. Q gr"
        using "1.prems"(1) by (auto dest!: set_update_subset_insert [THEN subsetD])
      show ?thesis
      proof (cases "list_all (isFull gSize) ?grs'")
        case True
        with room ne g have "shortLoop gSize bucket g grs = (butlast bucket, ?grs')"
          using eq by (simp add: Let_def)
        with Q' show ?thesis by simp
      next
        case False
        with room ne g have "shortLoop gSize bucket g grs
            = shortLoop gSize (butlast bucket) ((g + 1) mod length grs) ?grs'"
          using eq by (simp add: Let_def)
        moreover from "1.IH"(1) [OF _ _ room refl False Q' step] ne g
        have "length (snd (shortLoop gSize (butlast bucket) ((g + 1) mod length grs) ?grs')) = length ?grs'
              \<and> (\<forall>gr\<in>set (snd (shortLoop gSize (butlast bucket) ((g + 1) mod length grs) ?grs')). Q gr)"
          by simp
        ultimately show ?thesis by simp
      qed
    next
      case noroom: False
      show ?thesis
      proof (cases "list_all (isFull gSize) grs")
        case True
        with noroom ne g have "shortLoop gSize bucket g grs = (bucket, grs)"
          using eq by simp
        then show ?thesis using "1.prems"(1) by simp
      next
        case False
        with noroom ne g have "shortLoop gSize bucket g grs
            = shortLoop gSize bucket ((g + 1) mod length grs) grs"
          using eq by simp
        moreover from "1.IH"(2) [OF _ _ noroom False "1.prems"(1) step] ne g
        have "length (snd (shortLoop gSize bucket ((g + 1) mod length grs) grs)) = length grs
              \<and> (\<forall>gr\<in>set (snd (shortLoop gSize bucket ((g + 1) mod length grs) grs)). Q gr)"
          by simp
        ultimately show ?thesis by simp
      qed
    qed
  qed
qed

lemma assignShort_grow:
  assumes "\<forall>g\<in>set grs. Q g"
    and step: "\<And>g s. Q g \<Longrightarrow> int (length g) < gSize \<Longrightarrow> Q (g @ [place s])"
  shows "length (snd (assignShort gSize ps m grs)) = length grs
           \<and> (\<forall>g\<in>set (snd (assignShort gSize ps m grs)). Q g)"
  using assms(1)
proof (induction ps arbitrary: m grs)
  case Nil
  then show ?case by simp
next
  case (Cons p ps)
  let ?grs = "snd (shortLoop gSize (getBucket m p) 0 grs)"
  have 1: "length ?grs = length grs \<and> (\<forall>g\<in>set ?grs. Q g)"
    using step Cons.prems by (rule shortLoop_grow)
  then have "\<forall>g\<in>set ?grs. Q g" by simp
  from Cons.IH [OF this] 1 show ?case by (simp add: split_beta)
qed

lemma assignShort_conserve:
  assumes "distinct ks" and "set ps \<subseteq> set ks" and "set ps \<subseteq> fst ` set m"
  shows "mset (map place (concat (map (getBucket (fst (assignShort gSize ps m grs))) ks)))
           + mset (concat (snd (assignShort gSize ps m grs)))
         = mset (map place (concat (map (getBucket m) ks))) + mset (concat grs)"
  using assms(2,3)
proof (induction ps arbitrary: m grs)
  case Nil
  then show ?case by simp
next
  case (Cons p ps)
  let ?b = "fst (shortLoop gSize (getBucket m p) 0 grs)"
  let ?grs = "snd (shortLoop gSize (getBucket m p) 0 grs)"
  from Cons.prems have p: "p \<in> set ks" "p \<in> fst ` set m" by auto
  have keys: "fst ` set (setBucket p ?b m) = fst ` set m"
    using keys_setBucket [of p ?b m] by (metis set_map)
  have "mset (map place (concat (map (getBucket (setBucket p ?b m)) ks))) + mset (concat ?grs)
          = mset (map place (concat (map (getBucket m) ks))) + mset (concat grs)"
    using assms(1) p shortLoop_conserve by (rule step_conserve)
  moreover have "mset (map place (concat (map (getBucket (fst (assignShort gSize ps (setBucket p ?b m) ?grs))) ks)))
           + mset (concat (snd (assignShort gSize ps (setBucket p ?b m) ?grs)))
         = mset (map place (concat (map (getBucket (setBucket p ?b m)) ks))) + mset (concat ?grs)"
    using Cons.prems keys by (intro Cons.IH) auto
  ultimately show ?case by (simp add: split_beta)
qed

lemma pushFirst_length: "length (pushFirst gSize s grs) = length grs"
  by (induction grs) auto

lemma pushFirst_conserve:
  "\<exists>g\<in>set grs. int (length g) < gSize \<Longrightarrow>
     mset (concat (pushFirst gSize s grs)) = mset (concat grs) + {#place s#}"
  by (induction grs) auto

lemma pushFirst_grow:
  assumes "\<forall>g\<in>set grs. Q g"
    and "\<And>g s. Q g \<Longrightarrow> int (length g) < gSize \<Longrightarrow> Q (g @ [place s])"
  shows "\<forall>g\<in>set (pushFirst gSize s grs). Q g"
  using assms by (induction grs) auto

lemma concat_perm: "mset xs = mset ys \<Longrightarrow> mset (concat xs) = mset (concat ys)"
proof -
  assume "mset xs = mset ys"
  then have "sum_mset (mset (map mset xs)) = sum_mset (mset (map mset ys))" by simp
  then show ?thesis by (simp only: mset_concat sum_mset_sum_list)
qed

lemma all_full_size:
  "list_all (isFull gSize) grs \<Longrightarrow> int (length grs) * gSize \<le> int (length (concat grs))"
  by (induction grs) (auto simp: isFull_def algebra_simps)

lemma not_full_room:
  "\<not> list_all (isFull gSize) grs \<Longrightarrow> \<exists>g\<in>set grs. int (length g) < gSize"
  by (simp add: list_all_iff isFull_def not_le)

lemma distributeRest_conserve:
  "int (length (concat grs)) + int (length rest) \<le> int (length grs) * gSize \<Longrightarrow>
     mset (concat (distributeRest gSize rest grs)) = mset (concat grs) + mset (map place rest)"
proof (induction rest arbitrary: grs)
  case Nil
  then show ?case by simp
next
  case (Cons s rest)
  let ?sorted = "sort_key length grs"
  let ?grs' = "pushFirst gSize s ?sorted"
  have "\<not> list_all (isFull gSize) grs"
    using all_full_size [of gSize grs] Cons.prems by auto
  then have "\<exists>g\<in>set ?sorted. int (length g) < gSize"
    using not_full_room [of gSize grs] by simp
  then have "mset (concat ?grs') = mset (concat ?sorted) + {#place s#}"
    by (rule pushFirst_conserve)
  moreover have "mset (concat ?sorted) = mset (concat grs)"
    by (rule concat_perm) simp
  ultimately have m: "mset (concat ?grs') = mset (concat grs) + {#place s#}" by simp
  then have "size (mset (concat ?grs')) = size (mset (concat grs) + {#place s#})" by simp
  then have len: "length (concat ?grs') = length (concat grs) + 1" by simp
  have n: "length ?grs' = length grs" by (simp add: pushFirst_length)
  show ?case
  proof (cases "list_all (isFull gSize) ?grs'")
    case True
    from all_full_size [OF this] len n
    have "int (length grs) * gSize \<le> int (length (concat grs)) + 1" by simp
    moreover from Cons.prems
    have "int (length (concat grs)) + 1 + int (length rest) \<le> int (length grs) * gSize" by simp
    ultimately have "int (length rest) \<le> 0" by linarith
    then have "rest = []" by simp
    with True m show ?thesis by simp
  next
    case False
    have "mset (concat (distributeRest gSize rest ?grs')) = mset (concat ?grs') + mset (map place rest)"
      using Cons.prems len n by (intro Cons.IH) simp
    with False m show ?thesis by (simp add: Let_def)
  qed
qed

lemma distributeRest_grow:
  assumes "\<forall>g\<in>set grs. Q g"
    and step: "\<And>g s. Q g \<Longrightarrow> int (length g) < gSize \<Longrightarrow> Q (g @ [place s])"
  shows "length (distributeRest gSize rest grs) = length grs
           \<and> (\<forall>g\<in>set (distributeRest gSize rest grs). Q g)"
  using assms(1)
proof (induction rest arbitrary: grs)
  case Nil
  then show ?case by simp
next
  case (Cons s rest)
  let ?grs' = "pushFirst gSize s (sort_key length grs)"
  have "\<forall>g\<in>set (sort_key length grs). Q g" using Cons.prems by simp
  then have Q': "\<forall>g\<in>set ?grs'. Q g" using step by (rule pushFirst_grow)
  have n: "length ?grs' = length grs" by (simp add: pushFirst_length)
  from Cons.IH [OF Q'] Q' n show ?case by (simp add: Let_def)
qed

lemma getBucket_buildProgramMap:
  "getBucket (buildProgramMap studs) q = filter (\<lambda>s. program s = q) studs"
  using fold_pushTo [of program studs "[]" q] by (simp add: buildProgramMap_def getBucket_def)

lemma keys_buildProgramMap: "set (map fst (buildProgramMap studs)) = program ` set studs"
  using fold_pushTo_keys [of program studs "[]"] by (simp add: buildProgramMap_def)

lemma distinct_buildProgramMap: "distinct (map fst (buildProgramMap studs))"
  using fold_pushTo_distinct [of "[]" program studs] by (simp add: buildProgramMap_def)

lemma concat_filter_by_key:
  "distinct ks \<Longrightarrow>
     mset (concat (map (\<lambda>q. filter (\<lambda>s. f s = q) xs) ks)) = mset (filter (\<lambda>s. f s \<in> set ks) xs)"
proof (induction ks)
  case Nil
  then show ?case by simp
next
  case (Cons k ks)
  then have "k \<notin> set ks" by simp
  then have "filter_mset (\<lambda>s. f s = k) (mset xs) + filter_mset (\<lambda>s. f s \<in> set ks) (mset xs)
      = filter_mset (\<lambda>s. f s = k \<or> f s \<in> set ks) (mset xs)"
    by (intro multiset_eqI) auto
  with Cons show ?case by simp
qed

lemma ceilDiv_ge: "0 < b \<Longrightarrow> a \<le> ceilDiv a b * b"
proof -
  assume b: "0 < b"
  have "(- a) div b * b + (- a) mod b = - a" by simp
  moreover have "0 \<le> (- a) mod b" using b by simp
  ultimately have "(- a) div b * b \<le> - a" by linarith
  then show ?thesis by (simp add: ceilDiv_def)
qed

lemma ceilDiv_ceiling: "b \<noteq> 0 \<Longrightarrow> ceilDiv a b = \<lceil>real_of_int a / real_of_int b\<rceil>"
  by (simp add: ceilDiv_def ceiling_divide_eq_div)

lemma ceilDiv_pos: "0 < b \<Longrightarrow> 0 < a \<Longrightarrow> 0 < ceilDiv a b"
proof -
  assume "0 < b" "0 < a"
  then have "(- a) div b < 0" by (simp add: pos_imp_zdiv_neg_iff)
  then show ?thesis by (simp add: ceilDiv_def)
qed

lemma students_groupsWithWarnings: "map students (groupsWithWarnings progs grs) = grs"
proof -
  have "map students (groupsWithWarnings progs grs) = map snd (enumerate 0 grs)"
    by (simp add: groupsWithWarnings_def split_beta comp_def)
  then show ?thesis by simp
qed

lemma in_groupsWithWarnings:
  "g \<in> set (groupsWithWarnings progs grs) \<Longrightarrow>
     students g \<in> set grs \<and> missingPrograms g = missingOf progs (students g)"
  by (auto simp: groupsWithWarnings_def in_set_enumerate_eq)

section \<open>Properties of groupStudents\<close>

lemma groupStudents_result:
  assumes gs: "0 < gSize" and ne: "studs \<noteq> []"
  shows "\<exists>grs. groupStudents orc studs gSize seed
           = Inr \<lparr>groupSize = gSize, numGroups = nat (ceilDiv (int (length studs)) gSize),
                  programs = sort (map fst (buildProgramMap studs)),
                  groups = groupsWithWarnings (sort (map fst (buildProgramMap studs))) grs\<rparr>
         \<and> length grs = nat (ceilDiv (int (length studs)) gSize)
         \<and> mset (concat grs) = mset (map place studs)
         \<and> (\<forall>g\<in>set grs. int (length g) \<le> gSize)"
proof -
  define pm0 where "pm0 = buildProgramMap studs"
  define progs where "progs = sort (map fst pm0)"
  define r0 where "r0 = mkRng orc seed"
  define pm1 where "pm1 = fst (shuffleBuckets progs pm0 r0)"
  define r1 where "r1 = snd (shuffleBuckets progs pm0 r0)"
  define n where "n = nat (ceilDiv (int (length studs)) gSize)"
  define enough where "enough = filter (\<lambda>p. length (getBucket pm1 p) \<ge> n) progs"
  define short where "short = filter (\<lambda>p. \<not> length (getBucket pm1 p) \<ge> n) progs"
  define pm2 where "pm2 = fst (assignEnough gSize enough pm1 (replicate n []))"
  define grs1 where "grs1 = snd (assignEnough gSize enough pm1 (replicate n []))"
  define pm3 where "pm3 = fst (assignShort gSize short pm2 grs1)"
  define grs2 where "grs2 = snd (assignShort gSize short pm2 grs1)"
  define rest where "rest = fst (shuffleInPlace (concat (map (getBucket pm3) progs)) r1)"
  define grs3 where "grs3 = distributeRest gSize rest grs2"
  have res: "groupStudents orc studs gSize seed
      = Inr \<lparr>groupSize = gSize, numGroups = n, programs = progs,
             groups = groupsWithWarnings progs grs3\<rparr>"
    using gs ne
    by (simp add: groupStudents_def Let_def split_beta grs3_def rest_def grs2_def pm3_def
        grs1_def pm2_def short_def enough_def n_def r1_def pm1_def r0_def progs_def pm0_def)
  have dist: "distinct progs"
    by (simp add: progs_def pm0_def distinct_buildProgramMap)
  have keys0: "set progs = fst ` set pm0" by (simp add: progs_def)
  have keys1: "fst ` set pm1 = fst ` set pm0"
    using shuffleBuckets_keys [of progs pm0 r0] by (metis pm1_def set_map)
  have keys2: "fst ` set pm2 = fst ` set pm0"
    using assignEnough_keys [of gSize enough pm1 "replicate n []"] keys1
    by (metis pm2_def set_map)
  have cover: "set progs = program ` set studs"
    using keys_buildProgramMap [of studs] by (simp add: progs_def pm0_def)
  \<comment> \<open>every student is in a bucket, and stays in one or is placed\<close>
  have "getBucket pm0 = (\<lambda>q. filter (\<lambda>s. program s = q) studs)"
    by (rule ext) (simp add: pm0_def getBucket_buildProgramMap)
  then have "mset (concat (map (getBucket pm0) progs)) = mset (filter (\<lambda>s. program s \<in> set progs) studs)"
    using concat_filter_by_key [OF dist, of program studs] by simp
  also have "filter (\<lambda>s. program s \<in> set progs) studs = studs"
    using cover by simp
  finally have t0: "mset (concat (map (getBucket pm0) progs)) = mset studs" .
  have t1: "mset (concat (map (getBucket pm1) progs)) = mset studs"
    using concat_cong_mset [of progs "getBucket pm1" "getBucket pm0"] t0
    by (simp add: pm1_def shuffleBuckets_mset)
  have t2: "mset (map place (concat (map (getBucket pm2) progs))) + mset (concat grs1)
      = mset (map place (concat (map (getBucket pm1) progs))) + mset (concat (replicate n []))"
    unfolding pm2_def grs1_def
    using dist by (rule assignEnough_conserve) (auto simp: enough_def keys0 keys1)
  have t3: "mset (map place (concat (map (getBucket pm3) progs))) + mset (concat grs2)
      = mset (map place (concat (map (getBucket pm2) progs))) + mset (concat grs1)"
    unfolding pm3_def grs2_def
    using dist by (rule assignShort_conserve) (auto simp: short_def keys0 keys2)
  have rest: "mset rest = mset (concat (map (getBucket pm3) progs))"
    by (simp add: rest_def shuffleInPlace_mset)
  have t4: "mset (map place rest) + mset (concat grs2) = mset (map place studs)"
    using t1 t2 t3 rest by simp
  \<comment> \<open>the number of groups and their capacity\<close>
  have len1: "length grs1 = n" by (simp add: grs1_def assignEnough_length)
  have cap0: "\<forall>g\<in>set (replicate n ([] :: placed list)). int (length g) \<le> gSize"
    using gs by simp
  have step: "\<And>g s. int (length g) \<le> gSize \<Longrightarrow> int (length g) < gSize
      \<Longrightarrow> int (length (g @ [place s])) \<le> gSize" by simp
  have cap1: "\<forall>g\<in>set grs1. int (length g) \<le> gSize"
    unfolding grs1_def using cap0 step by (rule assignEnough_grow)
  have lc2: "length grs2 = length grs1 \<and> (\<forall>g\<in>set grs2. int (length g) \<le> gSize)"
    unfolding grs2_def using cap1 step by (rule assignShort_grow)
  have lc3: "length grs3 = length grs2 \<and> (\<forall>g\<in>set grs3. int (length g) \<le> gSize)"
    unfolding grs3_def using conjunct2 [OF lc2] step by (rule distributeRest_grow)
  have "int (length studs) \<le> ceilDiv (int (length studs)) gSize * gSize"
    using gs by (rule ceilDiv_ge)
  moreover have "0 < ceilDiv (int (length studs)) gSize"
    using gs ne by (intro ceilDiv_pos) simp_all
  ultimately have room: "int (length studs) \<le> int n * gSize" by (simp add: n_def)
  have "size (mset (map place rest) + mset (concat grs2)) = size (mset (map place studs))"
    using t4 by simp
  then have "length rest + length (concat grs2) = length studs" by simp
  with room lc2 len1
  have "int (length (concat grs2)) + int (length rest) \<le> int (length grs2) * gSize" by simp
  then have "mset (concat grs3) = mset (concat grs2) + mset (map place rest)"
    unfolding grs3_def by (rule distributeRest_conserve)
  with t4 have "mset (concat grs3) = mset (map place studs)" by (simp add: union_commute)
  with res lc3 lc2 len1 show ?thesis
    unfolding n_def progs_def pm0_def by (intro exI [of _ grs3]) simp
qed

section \<open>The claims about groupStudents\<close>

text \<open>The examples, evaluated.\<close>

lemma example_built:
  "groupStudents (\<lambda>k. k) exampleStudents 3 (Some 1) = Inr exampleBuilt"
  by code_simp

lemma example_built_unseeded:
  "groupStudents (\<lambda>k. 0) exampleStudents 3 None = Inr exampleBuiltUnseeded"
  by code_simp

lemma example_built_small:
  "groupStudents (\<lambda>k. k) exampleStudents 2 (Some 1) = Inr exampleBuiltSmall"
  by code_simp

text \<open>
  C2. For every non-empty list of students and every positive group size,
  \<open>groupStudents\<close> returns a partition, and no group of it holds more students than
  the group size.
\<close>

theorem groupStudents_capacity:
  assumes "studs \<noteq> []" and "0 < gSize"
  shows "\<exists>part. groupStudents orc studs gSize seed = Inr part
           \<and> (\<forall>g\<in>set (groups part). int (length (students g)) \<le> gSize)"
proof -
  from groupStudents_result [OF assms(2,1), of orc seed] obtain grs
    where res: "groupStudents orc studs gSize seed
           = Inr \<lparr>groupSize = gSize, numGroups = nat (ceilDiv (int (length studs)) gSize),
                  programs = sort (map fst (buildProgramMap studs)),
                  groups = groupsWithWarnings (sort (map fst (buildProgramMap studs))) grs\<rparr>"
      and cap: "\<forall>g\<in>set grs. int (length g) \<le> gSize"
    by blast
  show ?thesis
    using cap by (auto simp: res dest!: in_groupsWithWarnings)
qed

theorem groupStudents_capacity_witness:
  "exampleStudents \<noteq> [] \<and> (0::int) < 3
     \<and> groupStudents (\<lambda>k. k) exampleStudents 3 (Some 1) = Inr exampleBuilt
     \<and> list_all (\<lambda>g. int (length (students g)) \<le> 3) (groups exampleBuilt)"
  using groupStudents_capacity [of exampleStudents 3 "\<lambda>k. k" "Some 1"] example_built
  by (simp add: exampleStudents_def list_all_iff)

text \<open>
  C10. For every non-empty list of students, every positive group size and every seed
  (or none), every student placed in the partition that \<open>groupStudents\<close> returns has
  \<open>locked = false\<close>.
\<close>

theorem groupStudents_unlocked:
  assumes "studs \<noteq> []" and "0 < gSize"
  shows "\<exists>part. groupStudents orc studs gSize seed = Inr part
           \<and> (\<forall>g\<in>set (groups part). \<forall>s\<in>set (students g). locked s = False)"
proof -
  from groupStudents_result [OF assms(2,1), of orc seed] obtain grs
    where res: "groupStudents orc studs gSize seed
           = Inr \<lparr>groupSize = gSize, numGroups = nat (ceilDiv (int (length studs)) gSize),
                  programs = sort (map fst (buildProgramMap studs)),
                  groups = groupsWithWarnings (sort (map fst (buildProgramMap studs))) grs\<rparr>"
      and all: "mset (concat grs) = mset (map place studs)"
    by blast
  from all have eq: "set (concat grs) = set (map place studs)" by (rule mset_eq_setD)
  have "\<forall>gr\<in>set grs. \<forall>s\<in>set gr. locked s = False"
  proof (intro ballI)
    fix gr s
    assume "gr \<in> set grs" and "s \<in> set gr"
    then have "s \<in> set (concat grs)" by auto
    with eq obtain x where "s = place x" by auto
    then show "locked s = False" by (simp add: place_def)
  qed
  then show ?thesis
    by (auto simp: res dest!: in_groupsWithWarnings)
qed

theorem groupStudents_unlocked_witness:
  "exampleStudents \<noteq> [] \<and> (0::int) < 3
     \<and> groupStudents (\<lambda>k. 0) exampleStudents 3 None = Inr exampleBuiltUnseeded
     \<and> list_all (\<lambda>g. list_all (\<lambda>s. locked s = False) (students g)) (groups exampleBuiltUnseeded)"
  using groupStudents_unlocked [of exampleStudents 3 "\<lambda>k. 0" None] example_built_unseeded
  by (simp add: exampleStudents_def list_all_iff)

text \<open>
  C6. With a seed, the result of \<open>groupStudents\<close> is a function of the students, the
  group size and the seed alone: it does not depend on \<open>Math.random\<close>, so two calls with
  the same arguments return the same partition, the same students in the same order in
  every group.
\<close>

theorem groupStudents_deterministic:
  "groupStudents orc studs gSize (Some seed) = groupStudents orc' studs gSize (Some seed)"
  by (simp add: groupStudents_def mkRng_def)

theorem groupStudents_deterministic_witness:
  "groupStudents (\<lambda>k. 0) exampleStudents 3 (Some 42)
     = groupStudents (\<lambda>k. k) exampleStudents 3 (Some 42)"
  by (rule groupStudents_deterministic)

lemma programs_sorted_list:
  "sort (map fst (buildProgramMap studs)) = sorted_list_of_set (program ` set studs)"
proof -
  have "sorted_list_of_set (set (map fst (buildProgramMap studs)))
      = sort (remdups (map fst (buildProgramMap studs)))"
    by (rule sorted_list_of_set_sort_remdups)
  then show ?thesis
    using distinct_buildProgramMap [of studs] keys_buildProgramMap [of studs]
    by (simp add: distinct_remdups_id)
qed

lemma missingOf_eq:
  "missingOf progs studs =
     (if filter (\<lambda>p. p \<notin> program ` set studs) progs = [] then None
      else Some (filter (\<lambda>p. p \<notin> program ` set studs) progs))"
  by (simp add: missingOf_def Let_def)

text \<open>
  C7. For every non-empty list of students and every positive group size smaller than
  the number of distinct programs, \<open>groupStudents\<close> raises no error: it returns a
  partition, and \<open>missingPrograms\<close> of each group is the (non-empty) sorted list of
  exactly the programs that no student of the group has.
\<close>

theorem groupStudents_degraded:
  assumes "studs \<noteq> []" and "0 < gSize" and "gSize < int (card (program ` set studs))"
  shows "\<exists>part. groupStudents orc studs gSize seed = Inr part
           \<and> (\<forall>g\<in>set (groups part).
                 missingPrograms g
                   = Some (filter (\<lambda>p. p \<notin> program ` set (students g))
                             (sorted_list_of_set (program ` set studs)))
                 \<and> filter (\<lambda>p. p \<notin> program ` set (students g))
                             (sorted_list_of_set (program ` set studs)) \<noteq> [])"
proof -
  let ?progs = "sorted_list_of_set (program ` set studs)"
  from groupStudents_result [OF assms(2,1), of orc seed] obtain grs
    where res: "groupStudents orc studs gSize seed
           = Inr \<lparr>groupSize = gSize, numGroups = nat (ceilDiv (int (length studs)) gSize),
                  programs = ?progs, groups = groupsWithWarnings ?progs grs\<rparr>"
      and cap: "\<forall>g\<in>set grs. int (length g) \<le> gSize"
    unfolding programs_sorted_list by blast
  have "filter (\<lambda>p. p \<notin> program ` set gr) ?progs \<noteq> []" if "gr \<in> set grs" for gr
  proof -
    have "card (program ` set gr) \<le> card (set gr)" by (rule card_image_le) simp
    also have "\<dots> \<le> length gr" by (rule card_length)
    finally have "int (card (program ` set gr)) < int (card (program ` set studs))"
      using cap that assms(3) by fastforce
    then have "\<not> program ` set studs \<subseteq> program ` set gr"
      using card_mono [of "program ` set gr" "program ` set studs"] by auto
    then obtain p where "p \<in> program ` set studs" "p \<notin> program ` set gr" by auto
    then have "p \<in> set (filter (\<lambda>p. p \<notin> program ` set gr) ?progs)" by simp
    then show ?thesis by (auto simp: filter_empty_conv)
  qed
  then show ?thesis
    by (auto simp: res missingOf_eq dest!: in_groupsWithWarnings)
qed

theorem groupStudents_degraded_witness:
  "exampleStudents \<noteq> [] \<and> (0::int) < 2 \<and> 2 < int (card (program ` set exampleStudents))
     \<and> groupStudents (\<lambda>k. k) exampleStudents 2 (Some 1) = Inr exampleBuiltSmall
     \<and> list_all (\<lambda>g. missingPrograms g
                   = Some (filter (\<lambda>p. p \<notin> program ` set (students g))
                             (sorted_list_of_set (program ` set exampleStudents)))
                 \<and> filter (\<lambda>p. p \<notin> program ` set (students g))
                             (sorted_list_of_set (program ` set exampleStudents)) \<noteq> [])
           (groups exampleBuiltSmall)"
proof -
  have h: "2 < int (card (program ` set exampleStudents))"
    by (simp add: exampleStudents_def card_insert_if)
  have ne: "exampleStudents \<noteq> []" by (simp add: exampleStudents_def)
  from groupStudents_degraded [OF ne _ h, of "\<lambda>k. k" "Some 1"] example_built_small h ne
  show ?thesis by (simp add: list_all_iff)
qed

lemma assignEnough_covers:
  assumes "distinct ps"
    and "\<forall>p\<in>set ps. length grs \<le> length (getBucket m p) \<and> (\<forall>s\<in>set (getBucket m p). program s = p)"
    and "\<forall>g\<in>set grs. length g = k \<and> A \<subseteq> program ` set g"
    and "int (k + length ps) \<le> gSize"
  shows "\<forall>g\<in>set (snd (assignEnough gSize ps m grs)).
           length g = k + length ps \<and> A \<union> set ps \<subseteq> program ` set g"
  using assms
proof (induction ps arbitrary: m grs k A)
  case Nil
  then show ?case by simp
next
  case (Cons p ps)
  let ?b = "fst (enoughPass gSize (getBucket m p) grs)"
  let ?grs1 = "snd (enoughPass gSize (getBucket m p) grs)"
  have room: "\<forall>g\<in>set grs. int (length g) < gSize" using Cons.prems(3,4) by auto
  have stock: "length grs \<le> length (getBucket m p)" using Cons.prems(2) by simp
  have all: "list_all2 (\<lambda>g g'. \<exists>s\<in>set (getBucket m p). g' = g @ [place s]) grs ?grs1"
    using room stock by (rule enoughPass_all)
  have 1: "\<forall>g'\<in>set ?grs1. length g' = Suc k \<and> insert p A \<subseteq> program ` set g'"
  proof (rule ballI)
    fix g'
    assume "g' \<in> set ?grs1"
    then obtain i where i: "i < length ?grs1" "g' = ?grs1 ! i" by (auto simp: in_set_conv_nth)
    with all have "i < length grs" by (simp add: list_all2_lengthD)
    with all i obtain s where s: "s \<in> set (getBucket m p)" "g' = grs ! i @ [place s]"
      by (auto simp: list_all2_conv_all_nth)
    have "grs ! i \<in> set grs" using \<open>i < length grs\<close> by simp
    with Cons.prems(3) have "length (grs ! i) = k" "A \<subseteq> program ` set (grs ! i)" by auto
    moreover have "program (place s) = p" using s Cons.prems(2) by (simp add: place_def)
    ultimately show "length g' = Suc k \<and> insert p A \<subseteq> program ` set g'"
      using s by (auto simp: image_iff)
  qed
  have len: "length ?grs1 = length grs" by (rule enoughPass_length)
  have 2: "\<forall>q\<in>set ps. length ?grs1 \<le> length (getBucket (setBucket p ?b m) q)
             \<and> (\<forall>s\<in>set (getBucket (setBucket p ?b m) q). program s = q)"
  proof (rule ballI)
    fix q
    assume q: "q \<in> set ps"
    with Cons.prems(1) have "q \<noteq> p" by auto
    then have "getBucket (setBucket p ?b m) q = getBucket m q" by (rule getBucket_setBucket_other)
    with q Cons.prems(2) len show "length ?grs1 \<le> length (getBucket (setBucket p ?b m) q)
             \<and> (\<forall>s\<in>set (getBucket (setBucket p ?b m) q). program s = q)" by simp
  qed
  have "\<forall>g\<in>set (snd (assignEnough gSize ps (setBucket p ?b m) ?grs1)).
           length g = Suc k + length ps \<and> insert p A \<union> set ps \<subseteq> program ` set g"
    using Cons.prems(1,4) 2 1 by (intro Cons.IH) auto
  then show ?case by (simp add: split_beta)
qed

text \<open>
  C3. For every non-empty list of students and every positive group size such that
  the number of distinct programs is at most the group size and every program has at
  least \<open>numGroups = ceil(total / groupSize)\<close> students, \<open>groupStudents\<close> returns a
  partition in which \<open>missingPrograms\<close> of every group is \<open>null\<close>: every group has a student
  of every program.
\<close>

theorem groupStudents_full_coverage:
  assumes ne: "studs \<noteq> []" and gs: "0 < gSize"
    and few: "int (card (program ` set studs)) \<le> gSize"
    and many: "\<forall>p\<in>program ` set studs.
                 nat (ceilDiv (int (length studs)) gSize) \<le> length (filter (\<lambda>s. program s = p) studs)"
  shows "\<exists>part. groupStudents orc studs gSize seed = Inr part
           \<and> (\<forall>g\<in>set (groups part).
                 missingPrograms g = None \<and> program ` set studs \<subseteq> program ` set (students g))"
proof -
  define pm0 where "pm0 = buildProgramMap studs"
  define progs where "progs = sort (map fst pm0)"
  define r0 where "r0 = mkRng orc seed"
  define pm1 where "pm1 = fst (shuffleBuckets progs pm0 r0)"
  define r1 where "r1 = snd (shuffleBuckets progs pm0 r0)"
  define n where "n = nat (ceilDiv (int (length studs)) gSize)"
  define enough where "enough = filter (\<lambda>p. length (getBucket pm1 p) \<ge> n) progs"
  define short where "short = filter (\<lambda>p. \<not> length (getBucket pm1 p) \<ge> n) progs"
  define pm2 where "pm2 = fst (assignEnough gSize enough pm1 (replicate n []))"
  define grs1 where "grs1 = snd (assignEnough gSize enough pm1 (replicate n []))"
  define pm3 where "pm3 = fst (assignShort gSize short pm2 grs1)"
  define grs2 where "grs2 = snd (assignShort gSize short pm2 grs1)"
  define rest where "rest = fst (shuffleInPlace (concat (map (getBucket pm3) progs)) r1)"
  define grs3 where "grs3 = distributeRest gSize rest grs2"
  have res: "groupStudents orc studs gSize seed
      = Inr \<lparr>groupSize = gSize, numGroups = n, programs = progs,
             groups = groupsWithWarnings progs grs3\<rparr>"
    using gs ne
    by (simp add: groupStudents_def Let_def split_beta grs3_def rest_def grs2_def pm3_def
        grs1_def pm2_def short_def enough_def n_def r1_def pm1_def r0_def progs_def pm0_def)
  have dist: "distinct progs"
    by (simp add: progs_def pm0_def distinct_buildProgramMap)
  have cover: "set progs = program ` set studs"
    using keys_buildProgramMap [of studs] by (simp add: progs_def pm0_def)
  \<comment> \<open>the shuffled bucket of a program holds the students of that program\<close>
  have bucket: "mset (getBucket pm1 p) = mset (filter (\<lambda>s. program s = p) studs)" for p
    by (simp add: pm1_def shuffleBuckets_mset pm0_def getBucket_buildProgramMap)
  have blen: "length (getBucket pm1 p) = length (filter (\<lambda>s. program s = p) studs)" for p
    using bucket [of p] by (metis size_mset)
  have bprog: "\<forall>s\<in>set (getBucket pm1 p). program s = p" for p
    using mset_eq_setD [OF bucket [of p]] by auto
  \<comment> \<open>so every program has enough students, and none is short\<close>
  have enough_all: "enough = progs"
    unfolding enough_def using many cover blen by (simp add: n_def)
  have short_none: "short = []"
    unfolding short_def using many cover blen by (simp add: n_def)
  have "distinct progs" by (rule dist)
  moreover have "\<forall>p\<in>set progs. length (replicate n ([] :: placed list)) \<le> length (getBucket pm1 p)
      \<and> (\<forall>s\<in>set (getBucket pm1 p). program s = p)"
    using many cover blen bprog by (simp add: n_def)
  moreover have "\<forall>g\<in>set (replicate n ([] :: placed list)). length g = 0 \<and> {} \<subseteq> program ` set g"
    by simp
  moreover have "int (0 + length progs) \<le> gSize"
    using few cover distinct_card [OF dist] by simp
  ultimately have c1: "\<forall>g\<in>set grs1. length g = 0 + length progs \<and> {} \<union> set progs \<subseteq> program ` set g"
    unfolding grs1_def enough_all by (rule assignEnough_covers)
  have "grs2 = grs1" by (simp add: grs2_def short_none)
  with c1 have c2: "\<forall>g\<in>set grs2. set progs \<subseteq> program ` set g" by simp
  have "length grs3 = length grs2 \<and> (\<forall>g\<in>set grs3. set progs \<subseteq> program ` set g)"
    unfolding grs3_def using c2 by (rule distributeRest_grow) auto
  then have c3: "\<forall>g\<in>set grs3. set progs \<subseteq> program ` set g" by simp
  have "\<forall>g\<in>set grs3. missingOf progs g = None \<and> program ` set studs \<subseteq> program ` set g"
  proof (rule ballI)
    fix g
    assume "g \<in> set grs3"
    with c3 have sub: "set progs \<subseteq> program ` set g" by simp
    then have "filter (\<lambda>p. p \<notin> program ` set g) progs = []"
      by (auto simp: filter_empty_conv)
    with sub cover show "missingOf progs g = None \<and> program ` set studs \<subseteq> program ` set g"
      by (simp add: missingOf_eq)
  qed
  then show ?thesis
    by (auto simp: res dest!: in_groupsWithWarnings)
qed

theorem groupStudents_full_coverage_witness:
  "exampleStudents \<noteq> [] \<and> (0::int) < 3 \<and> int (card (program ` set exampleStudents)) \<le> 3
     \<and> list_all (\<lambda>p. nat (ceilDiv (int (length exampleStudents)) 3)
                       \<le> length (filter (\<lambda>s. program s = p) exampleStudents))
          (map program exampleStudents)
     \<and> groupStudents (\<lambda>k. k) exampleStudents 3 (Some 1) = Inr exampleBuilt
     \<and> list_all (\<lambda>g. missingPrograms g = None
                   \<and> program ` set exampleStudents \<subseteq> program ` set (students g))
           (groups exampleBuilt)"
proof -
  have few: "int (card (program ` set exampleStudents)) \<le> 3"
    by (simp add: exampleStudents_def card_insert_if)
  have many: "\<forall>p\<in>program ` set exampleStudents.
      nat (ceilDiv (int (length exampleStudents)) 3) \<le> length (filter (\<lambda>s. program s = p) exampleStudents)"
    by (simp add: exampleStudents_def ceilDiv_def)
  have ne: "exampleStudents \<noteq> []" by (simp add: exampleStudents_def)
  from groupStudents_full_coverage [OF ne _ few many, of "\<lambda>k. k" "Some 1"] example_built
    ne few many
  show ?thesis by (simp add: list_all_iff)
qed

section \<open>Properties of reshuffleRespectingLocksToGroupSize\<close>

lemma locked_asUnlocked: "locked (asUnlocked s) = False"
  by (simp add: asUnlocked_def)

lemma locked_asLocked: "locked (asLocked s) = True"
  by (simp add: asLocked_def)

lemma fillMissing_keys: "map fst (fst (fillMissing gSize ps q res)) = map fst q"
  by (induction gSize ps q res rule: fillMissing.induct) (simp_all add: keys_setBucket)

lemma fillMissing_locked: "filter locked (snd (fillMissing gSize ps q res)) = filter locked res"
  by (induction gSize ps q res rule: fillMissing.induct) (simp_all add: locked_asUnlocked)

lemma fillMissing_conserve:
  assumes "distinct ks"
  shows "set ks = fst ` set q \<Longrightarrow>
     mset (map asUnlocked (concat (map (getBucket (fst (fillMissing gSize ps q res))) ks)))
         + mset (snd (fillMissing gSize ps q res))
       = mset (map asUnlocked (concat (map (getBucket q) ks))) + mset res"
proof (induction gSize ps q res rule: fillMissing.induct)
  case (1 gSize q res)
  then show ?case by simp
next
  case (2 gSize p ps q res)
  let ?b = "getBucket q p"
  let ?q = "setBucket p (butlast ?b) q"
  let ?res = "res @ [asUnlocked (last ?b)]"
  show ?case
  proof (cases "int (length res) \<ge> gSize \<or> length ?b = 0")
    case True
    with 2 show ?thesis by auto
  next
    case False
    then have ne: "?b \<noteq> []" and room: "\<not> int (length res) \<ge> gSize" by auto
    from ne have pk: "p \<in> fst ` set q" using getBucket_absent [of p q] by auto
    with "2.prems" have pks: "p \<in> set ks" by simp
    have keys: "set ks = fst ` set ?q"
      using "2.prems" keys_setBucket [of p "butlast ?b" q] by (metis set_map)
    from pop_mset [OF ne]
    have "mset (map asUnlocked ?b) = mset (map asUnlocked (butlast ?b)) + {#asUnlocked (last ?b)#}"
      by (metis image_mset_single image_mset_union mset_map)
    then have "mset (map asUnlocked (butlast ?b)) + mset ?res = mset (map asUnlocked ?b) + mset res"
      by simp
    with assms pks pk
    have "mset (map asUnlocked (concat (map (getBucket ?q) ks))) + mset ?res
        = mset (map asUnlocked (concat (map (getBucket q) ks))) + mset res"
      by (rule step_conserve)
    moreover have "mset (map asUnlocked (concat (map (getBucket (fst (fillMissing gSize ps ?q ?res))) ks)))
         + mset (snd (fillMissing gSize ps ?q ?res))
       = mset (map asUnlocked (concat (map (getBucket ?q) ks))) + mset ?res"
      using False keys by (intro "2.IH"(2)) auto
    ultimately show ?thesis using False by simp
  qed
qed

lemma fillGroups_length: "length (snd (fillGroups gSize enough q ress)) = length ress"
  by (induction ress arbitrary: q) (simp_all add: split_beta Let_def)

lemma fillGroups_locked:
  "map (filter locked) (snd (fillGroups gSize enough q ress)) = map (filter locked) ress"
  by (induction ress arbitrary: q) (simp_all add: split_beta Let_def fillMissing_locked)

lemma fillGroups_conserve:
  assumes "distinct ks"
  shows "set ks = fst ` set q \<Longrightarrow>
     mset (map asUnlocked (concat (map (getBucket (fst (fillGroups gSize enough q ress))) ks)))
         + mset (concat (snd (fillGroups gSize enough q ress)))
       = mset (map asUnlocked (concat (map (getBucket q) ks))) + mset (concat ress)"
proof (induction ress arbitrary: q)
  case Nil
  then show ?case by simp
next
  case (Cons res ress)
  let ?missing = "filter (\<lambda>p. p \<notin> set (map program res)) enough"
  let ?q1 = "fst (fillMissing gSize ?missing q res)"
  let ?res' = "snd (fillMissing gSize ?missing q res)"
  have keys: "set ks = fst ` set ?q1"
    using Cons.prems fillMissing_keys [of gSize ?missing q res] by (metis set_map)
  have 1: "mset (map asUnlocked (concat (map (getBucket ?q1) ks))) + mset ?res'
       = mset (map asUnlocked (concat (map (getBucket q) ks))) + mset res"
    using assms Cons.prems by (rule fillMissing_conserve)
  have 2: "mset (map asUnlocked (concat (map (getBucket (fst (fillGroups gSize enough ?q1 ress))) ks)))
         + mset (concat (snd (fillGroups gSize enough ?q1 ress)))
       = mset (map asUnlocked (concat (map (getBucket ?q1) ks))) + mset (concat ress)"
    using keys by (rule Cons.IH)
  show ?case
  proof (rule multiset_eqI)
    fix x
    from 1 have "count (mset (map asUnlocked (concat (map (getBucket ?q1) ks))) + mset ?res') x
       = count (mset (map asUnlocked (concat (map (getBucket q) ks))) + mset res) x" by simp
    moreover from 2 have "count (mset (map asUnlocked (concat (map (getBucket (fst (fillGroups gSize enough ?q1 ress))) ks)))
         + mset (concat (snd (fillGroups gSize enough ?q1 ress)))) x
       = count (mset (map asUnlocked (concat (map (getBucket ?q1) ks))) + mset (concat ress)) x" by simp
    ultimately show "count (mset (map asUnlocked (concat (map (getBucket (fst (fillGroups gSize enough q (res # ress)))) ks)))
         + mset (concat (snd (fillGroups gSize enough q (res # ress))))) x
       = count (mset (map asUnlocked (concat (map (getBucket q) ks))) + mset (concat (res # ress))) x"
      by (simp add: split_beta Let_def)
  qed
qed

lemma placeFirst_Some:
  "placeFirst gSize s order res = Some res' \<Longrightarrow>
     \<exists>idx\<in>set order. int (length (res ! idx)) < gSize \<and> res' = res[idx := res ! idx @ [asUnlocked s]]"
  by (induction order) (auto split: if_splits)

lemma placeFirst_None:
  "placeFirst gSize s order res = None \<Longrightarrow> \<forall>idx\<in>set order. \<not> int (length (res ! idx)) < gSize"
  by (induction order) (auto split: if_splits)

lemma update_append_locked:
  "map (filter locked) (res[idx := res ! idx @ [asUnlocked s]]) = map (filter locked) res"
proof (cases "idx < length res")
  case True
  then show ?thesis
    by (simp add: map_update locked_asUnlocked list_update_same_conv)
next
  case False
  then have "res[idx := res ! idx @ [asUnlocked s]] = res" by (simp add: list_update_beyond)
  then show ?thesis by simp
qed

lemma distributeLeftover_length: "length (distributeLeftover gSize leftover order res) = length res"
proof (induction leftover arbitrary: res)
  case Nil
  then show ?case by simp
next
  case (Cons s rest)
  show ?case
  proof (cases "placeFirst gSize s order res")
    case None
    then show ?thesis by simp
  next
    case (Some res')
    from placeFirst_Some [OF this] have "length res' = length res" by auto
    with Cons [of res'] Some show ?thesis by simp
  qed
qed

lemma distributeLeftover_locked:
  "map (filter locked) (distributeLeftover gSize leftover order res) = map (filter locked) res"
proof (induction leftover arbitrary: res)
  case Nil
  then show ?case by simp
next
  case (Cons s rest)
  show ?case
  proof (cases "placeFirst gSize s order res")
    case None
    then show ?thesis by simp
  next
    case (Some res')
    from placeFirst_Some [OF this]
    have "map (filter locked) res' = map (filter locked) res"
      by (auto simp: update_append_locked)
    with Cons [of res'] Some show ?thesis by simp
  qed
qed

lemma distributeLeftover_conserve:
  assumes order: "set order = {0..<n}"
  shows "length res = n \<Longrightarrow>
     int (length (concat res)) + int (length leftover) \<le> int n * gSize \<Longrightarrow>
     mset (concat (distributeLeftover gSize leftover order res))
       = mset (concat res) + mset (map asUnlocked leftover)"
proof (induction leftover arbitrary: res)
  case Nil
  then show ?case by simp
next
  case (Cons s rest)
  have "\<not> list_all (isFull gSize) res"
    using all_full_size [of gSize res] Cons.prems by auto
  then obtain i where i: "i < length res" "int (length (res ! i)) < gSize"
    by (auto simp: list_all_length isFull_def)
  with order Cons.prems(1) have "i \<in> set order" by simp
  with i have "placeFirst gSize s order res \<noteq> None"
    using placeFirst_None [of gSize s order res] by auto
  then obtain res' where Some: "placeFirst gSize s order res = Some res'" by auto
  from placeFirst_Some [OF this] obtain idx
    where idx: "idx \<in> set order" "res' = res[idx := res ! idx @ [asUnlocked s]]" by auto
  with order Cons.prems(1) have "idx < length res" by simp
  then have m: "mset (concat res') = mset (concat res) + {#asUnlocked s#}"
    unfolding idx(2) by (rule concat_update_append)
  then have "size (mset (concat res')) = size (mset (concat res) + {#asUnlocked s#})" by simp
  then have len: "length (concat res') = length (concat res) + 1" by simp
  have n: "length res' = n" using idx(2) Cons.prems(1) by simp
  have "mset (concat (distributeLeftover gSize rest order res'))
       = mset (concat res') + mset (map asUnlocked rest)"
    using n Cons.prems(2) len by (intro Cons.IH) auto
  with Some m show ?case by simp
qed

lemma total_foldl:
  "foldl (\<lambda>acc g. acc + length (students g)) a grps = a + length (concat (map students grps))"
  by (induction grps arbitrary: a) auto

lemma ownKeys_mset: "mset (ownKeys ks) = mset ks"
  by (simp add: ownKeys_def)

lemma lockedGroupsOf_concat:
  "concat (lockedGroupsOf grps) = map asLocked (filter locked (concat (map students grps)))"
  by (induction grps) (auto simp: lockedGroupsOf_def)

lemma lockedGroupsOf_locked: "map (filter locked) (lockedGroupsOf grps) = lockedGroupsOf grps"
proof -
  have "filter locked (map asLocked xs) = map asLocked xs" for xs
    by (induction xs) (simp_all add: locked_asLocked)
  then have "\<forall>l\<in>set (lockedGroupsOf grps). filter locked l = l"
    by (auto simp: lockedGroupsOf_def)
  then show ?thesis by (simp add: map_idI)
qed

lemma target_capacity:
  assumes "0 < gSize"
  shows "int t \<le> int (nat (max 1 (ceilDiv (int t) gSize))) * gSize"
proof -
  have "int t \<le> ceilDiv (int t) gSize * gSize" using assms by (rule ceilDiv_ge)
  also have "\<dots> \<le> max 1 (ceilDiv (int t) gSize) * gSize"
    using assms by (intro mult_right_mono) auto
  finally have "int t \<le> max 1 (ceilDiv (int t) gSize) * gSize" .
  moreover have "int (nat (max 1 (ceilDiv (int t) gSize))) = max 1 (ceilDiv (int t) gSize)"
    by simp
  ultimately show ?thesis by simp
qed

lemma reshuffle_result:
  assumes ret: "reshuffleRespectingLocksToGroupSize orc grps progs gSize seed = Inr res"
  shows "\<exists>res2. res = groupsWithWarnings progs res2
           \<and> length (lockedGroupsOf grps) \<le> length res2
           \<and> map (filter locked) res2
                = lockedGroupsOf grps @ replicate (length res2 - length (lockedGroupsOf grps)) []
           \<and> (0 < gSize \<longrightarrow>
                 mset (concat res2)
                   = mset (concat (lockedGroupsOf grps))
                     + mset (map asUnlocked (filter (\<lambda>s. \<not> locked s) (concat (map students grps)))))"
proof (cases "gSize = 0")
  case True
  with ret have total: "length (concat (map students grps)) = 0" and res: "res = []"
    by (auto simp: reshuffleRespectingLocksToGroupSize_def total_foldl Let_def split: if_splits)
  from total have "lockedGroupsOf grps = []"
    using lockedGroupsOf_concat [of grps] by (auto simp: lockedGroupsOf_def)
  with res True show ?thesis
    by (intro exI [of _ "[]"]) (simp add: groupsWithWarnings_def)
next
  case False
  define everyone where "everyone = concat (map students grps)"
  define T where "T = nat (max 1 (ceilDiv (int (length everyone)) gSize))"
  define pool where "pool = map asUnlocked (filter (\<lambda>s. \<not> locked s) everyone)"
  define enough where "enough = filter (\<lambda>p. p \<notin> set objectPrototypeKeys
      \<and> length (filter (\<lambda>s. program s = p) (filter locked everyone @ pool)) \<ge> T) progs"
  define LG where "LG = lockedGroupsOf grps"
  define res0 where "res0 = LG @ replicate (T - length LG) []"
  define queues where "queues = fold (\<lambda>s q. pushTo (program s) s q) pool []"
  define keys where "keys = ownKeys (map fst queues)"
  define r0 where "r0 = mkRng orc seed"
  define queues1 where "queues1 = fst (shuffleBuckets keys queues r0)"
  define r1 where "r1 = snd (shuffleBuckets keys queues r0)"
  define queues2 where "queues2 = fst (fillGroups gSize enough queues1 res0)"
  define res1 where "res1 = snd (fillGroups gSize enough queues1 res0)"
  define leftover where "leftover = fst (shuffleInPlace (concat (map (getBucket queues2) keys)) r1)"
  define res2 where "res2 = distributeLeftover gSize leftover (targetOrder res1) res1"
  have unfolded: "reshuffleRespectingLocksToGroupSize orc grps progs gSize seed
      = (if length LG > T then Inl TooManyLockedGroups
         else if list_ex (\<lambda>s. program s \<in> set objectPrototypeKeys) pool then Inl TypeError
         else Inr (groupsWithWarnings progs res2))"
    using False
    by (simp add: reshuffleRespectingLocksToGroupSize_def total_foldl Let_def split_beta
        res2_def leftover_def res1_def queues2_def r1_def queues1_def r0_def keys_def queues_def
        res0_def LG_def enough_def pool_def T_def everyone_def)
  with ret have fits: "length LG \<le> T" and res: "res = groupsWithWarnings progs res2"
    by (auto split: if_splits)
  \<comment> \<open>the target groups and their locked students\<close>
  have len0: "length res0 = T" using fits by (simp add: res0_def)
  have len1: "length res1 = T" by (simp add: res1_def fillGroups_length len0)
  have len2: "length res2 = T" by (simp add: res2_def distributeLeftover_length len1)
  have "map (filter locked) res2 = map (filter locked) res0"
    by (simp add: res2_def res1_def distributeLeftover_locked fillGroups_locked)
  also have "\<dots> = LG @ replicate (T - length LG) []"
    by (simp add: res0_def LG_def lockedGroupsOf_locked)
  finally have lockedpart: "map (filter locked) res2 = LG @ replicate (T - length LG) []" .
  \<comment> \<open>the unlocked students: in the queues, then in the groups\<close>
  have conserve: "mset (concat res2) = mset (concat LG) + mset pool" if pos: "0 < gSize"
  proof -
    have dq: "distinct (map fst queues)"
      using fold_pushTo_distinct [of "[]" program pool] by (simp add: queues_def)
    have mk: "mset keys = mset (map fst queues)" by (simp add: keys_def ownKeys_mset)
    have dist: "distinct keys" using dq mset_eq_imp_distinct_iff [OF mk] by simp
    have kset: "set keys = fst ` set queues" using mset_eq_setD [OF mk] by simp
    have cover: "set keys = program ` set pool"
      using fold_pushTo_keys [of program pool "[]"] kset by (simp add: queues_def)
    have "getBucket queues = (\<lambda>q. filter (\<lambda>s. program s = q) pool)"
    proof (rule ext)
      fix q
      show "getBucket queues q = filter (\<lambda>s. program s = q) pool"
        using fold_pushTo [of program pool "[]" q] by (simp add: queues_def getBucket_def)
    qed
    then have "mset (concat (map (getBucket queues) keys)) = mset (filter (\<lambda>s. program s \<in> set keys) pool)"
      using concat_filter_by_key [OF dist, of program pool] by simp
    also have "filter (\<lambda>s. program s \<in> set keys) pool = pool" using cover by simp
    finally have q0: "mset (concat (map (getBucket queues) keys)) = mset pool" .
    have q1: "mset (concat (map (getBucket queues1) keys)) = mset pool"
      using concat_cong_mset [of keys "getBucket queues1" "getBucket queues"] q0
      by (simp add: queues1_def shuffleBuckets_mset)
    have kset1: "set keys = fst ` set queues1"
      using kset shuffleBuckets_keys [of keys queues r0] by (metis queues1_def set_map)
    have q2: "mset (map asUnlocked (concat (map (getBucket queues2) keys))) + mset (concat res1)
        = mset (map asUnlocked (concat (map (getBucket queues1) keys))) + mset (concat res0)"
      unfolding queues2_def res1_def using dist kset1 by (rule fillGroups_conserve)
    have lo: "mset leftover = mset (concat (map (getBucket queues2) keys))"
      by (simp add: leftover_def shuffleInPlace_mset)
    have c0: "concat res0 = concat LG" by (simp add: res0_def)
    have idem: "map asUnlocked pool = pool" by (simp add: pool_def asUnlocked_def)
    from q1 have "image_mset asUnlocked (mset (concat (map (getBucket queues1) keys)))
        = image_mset asUnlocked (mset pool)" by simp
    then have q1': "mset (map asUnlocked (concat (map (getBucket queues1) keys))) = mset pool"
      using idem by (metis mset_map)
    from lo have lo': "mset (map asUnlocked leftover)
        = mset (map asUnlocked (concat (map (getBucket queues2) keys)))"
      by (metis mset_map)
    have sum: "mset (map asUnlocked leftover) + mset (concat res1) = mset pool + mset (concat LG)"
      using q2 q1' lo' c0 by simp
    then have "size (mset (map asUnlocked leftover) + mset (concat res1))
        = size (mset pool + mset (concat LG))" by simp
    then have "length leftover + length (concat res1) = length pool + length (concat LG)" by simp
    moreover have "length pool + length (concat LG) = length everyone"
      using sum_length_filter_compl [of locked everyone]
      by (simp add: pool_def LG_def lockedGroupsOf_concat everyone_def)
    moreover have "int (length everyone) \<le> int T * gSize"
      unfolding T_def using pos by (rule target_capacity)
    ultimately have room: "int (length (concat res1)) + int (length leftover) \<le> int T * gSize"
      by simp
    have "set (targetOrder res1) = {0..<T}" by (simp add: targetOrder_def len1)
    then have "mset (concat res2) = mset (concat res1) + mset (map asUnlocked leftover)"
      unfolding res2_def using len1 room by (rule distributeLeftover_conserve)
    with sum show ?thesis by (simp add: union_commute)
  qed
  show ?thesis
    using res fits len2 lockedpart conserve
    unfolding LG_def pool_def everyone_def
    by (intro exI [of _ res2]) simp
qed

lemma reshuffle_returns:
  assumes "gSize \<noteq> 0"
    and "length (lockedGroupsOf grps)
           \<le> nat (max 1 (ceilDiv (int (length (concat (map students grps)))) gSize))"
    and "\<not> list_ex (\<lambda>s. \<not> locked s \<and> program s \<in> set objectPrototypeKeys) (concat (map students grps))"
  shows "\<exists>res. reshuffleRespectingLocksToGroupSize orc grps progs gSize seed = Inr res"
proof -
  have "\<not> list_ex (\<lambda>s. program s \<in> set objectPrototypeKeys)
          (map asUnlocked (filter (\<lambda>s. \<not> locked s) (concat (map students grps))))"
    using assms(3) by (auto simp: list_ex_iff asUnlocked_def)
  with assms(1,2) show ?thesis
    by (simp add: reshuffleRespectingLocksToGroupSize_def total_foldl Let_def split_beta)
qed

lemma example_reshuffle:
  "reshuffleRespectingLocksToGroupSize (\<lambda>k. k) exampleGroups [''CS'', ''Math'', ''Physics''] 2 (Some 1)
     = Inr exampleReshuffled"
  by code_simp

lemma sizes_sum:
  "sum_list (map (\<lambda>g. length (students g)) gs) = length (concat (map students gs))"
  by (simp add: length_concat comp_def)

text \<open>
  C1. For every positive group size: for every non-empty list of students,
  \<open>groupStudents\<close> returns a partition whose group sizes sum to the number of students;
  and whenever \<open>reshuffleRespectingLocksToGroupSize\<close> returns groups, their sizes sum to
  the number of students of the groups it was given.
\<close>

theorem sizes_conserved:
  assumes "0 < gSize"
  shows "(studs \<noteq> [] \<longrightarrow>
           (\<exists>part. groupStudents orc studs gSize seed = Inr part
              \<and> sum_list (map (\<lambda>g. length (students g)) (groups part)) = length studs))
       \<and> (reshuffleRespectingLocksToGroupSize orc grps progs gSize seed = Inr res \<longrightarrow>
            sum_list (map (\<lambda>g. length (students g)) res)
              = sum_list (map (\<lambda>g. length (students g)) grps))"
proof (intro conjI impI)
  assume ne: "studs \<noteq> []"
  from groupStudents_result [OF assms ne, of orc seed] obtain grs
    where res: "groupStudents orc studs gSize seed
           = Inr \<lparr>groupSize = gSize, numGroups = nat (ceilDiv (int (length studs)) gSize),
                  programs = sort (map fst (buildProgramMap studs)),
                  groups = groupsWithWarnings (sort (map fst (buildProgramMap studs))) grs\<rparr>"
      and all: "mset (concat grs) = mset (map place studs)"
    by blast
  from all have "size (mset (concat grs)) = size (mset (map place studs))" by simp
  then have "length (concat grs) = length studs" by simp
  moreover have "sum_list (map (\<lambda>g. length (students g)) (groupsWithWarnings progs' grs))
      = length (concat grs)" for progs'
    by (simp only: sizes_sum students_groupsWithWarnings)
  ultimately show "\<exists>part. groupStudents orc studs gSize seed = Inr part
      \<and> sum_list (map (\<lambda>g. length (students g)) (groups part)) = length studs"
    by (simp add: res)
next
  assume "reshuffleRespectingLocksToGroupSize orc grps progs gSize seed = Inr res"
  from reshuffle_result [OF this] assms obtain res2
    where res: "res = groupsWithWarnings progs res2"
      and all: "mset (concat res2) = mset (concat (lockedGroupsOf grps))
                     + mset (map asUnlocked (filter (\<lambda>s. \<not> locked s) (concat (map students grps))))"
    by blast
  from arg_cong [OF all, of size]
  have "length (concat res2) = length (concat (lockedGroupsOf grps))
      + length (filter (\<lambda>s. \<not> locked s) (concat (map students grps)))"
    by (simp only: size_union size_mset length_map)
  also have "length (concat (lockedGroupsOf grps)) = length (filter locked (concat (map students grps)))"
    by (simp only: lockedGroupsOf_concat length_map)
  finally have "length (concat res2) = length (concat (map students grps))"
    using sum_length_filter_compl [of locked "concat (map students grps)"] by simp
  moreover have "sum_list (map (\<lambda>g. length (students g)) res) = length (concat res2)"
    unfolding res by (simp only: sizes_sum students_groupsWithWarnings)
  moreover have "sum_list (map (\<lambda>g. length (students g)) grps) = length (concat (map students grps))"
    by (rule sizes_sum)
  ultimately show "sum_list (map (\<lambda>g. length (students g)) res)
      = sum_list (map (\<lambda>g. length (students g)) grps)" by simp
qed

theorem sizes_conserved_witness:
  "(0::int) < 2 \<and> exampleStudents \<noteq> []
     \<and> groupStudents (\<lambda>k. k) exampleStudents 2 (Some 1) = Inr exampleBuiltSmall
     \<and> sum_list (map (\<lambda>g. length (students g)) (groups exampleBuiltSmall)) = length exampleStudents
     \<and> reshuffleRespectingLocksToGroupSize (\<lambda>k. k) exampleGroups [''CS'', ''Math'', ''Physics''] 2 (Some 1)
          = Inr exampleReshuffled
     \<and> sum_list (map (\<lambda>g. length (students g)) exampleReshuffled)
          = sum_list (map (\<lambda>g. length (students g)) exampleGroups)"
proof -
  have ne: "exampleStudents \<noteq> []" and len: "length exampleStudents = 6"
    by (simp_all add: exampleStudents_def)
  have old: "sum_list (map (\<lambda>g. length (students g)) exampleGroups) = 6"
    by (simp add: exampleGroups_def)
  from sizes_conserved [of 2 exampleStudents "\<lambda>k. k" "Some 1" exampleGroups
      "[''CS'', ''Math'', ''Physics'']" exampleReshuffled]
    example_reshuffle example_built_small ne
  show ?thesis by simp
qed

section \<open>lockedStayInPlace and parseCSV\<close>

lemma buildCohorts_none:
  "\<forall>g\<in>set gs. filter locked (students g) = [] \<Longrightarrow> buildCohorts gs cohorts m = (cohorts, m)"
  by (induction gs arbitrary: cohorts m) (simp_all add: jsSet_def)

text \<open>
  C9. When no student of the groups before is locked, \<open>lockedStayInPlace\<close> returns
  true, whatever the groups after are.
\<close>

theorem lockedStayInPlace_no_locks:
  assumes "\<forall>g\<in>set prevGroups. \<forall>s\<in>set (students g). \<not> locked s"
  shows "lockedStayInPlace prevGroups nextGroups = True"
proof -
  from assms have "\<forall>g\<in>set prevGroups. filter locked (students g) = []"
    by (auto simp: filter_empty_conv)
  then have "buildCohorts prevGroups [] Map.empty = ([], Map.empty)"
    by (rule buildCohorts_none)
  then show ?thesis by (simp add: lockedStayInPlace_def)
qed

theorem lockedStayInPlace_no_locks_witness:
  "list_all (\<lambda>g. list_all (\<lambda>s. \<not> locked s) (students g)) (groupsWithWarnings [] [map place exampleStudents])
     \<and> lockedStayInPlace (groupsWithWarnings [] [map place exampleStudents]) exampleGroups = True"
proof -
  have h: "\<forall>g\<in>set (groupsWithWarnings [] [map place exampleStudents]). \<forall>s\<in>set (students g). \<not> locked s"
    by (simp add: groupsWithWarnings_def exampleStudents_def place_def)
  from lockedStayInPlace_no_locks [OF h, of exampleGroups] h
  show ?thesis by (simp add: list_all_iff)
qed

text \<open>
  C8. A header of three columns, none of them an alias of the name or of the program:
  \<open>parseCSV\<close> reports no missing header, it reads the name from column 0 and the
  program from column 1 (the test is \<open>header.length >= 2\<close>, under a comment that says
  exactly two columns).
\<close>

theorem parseCSV_three_columns:
  "parseCSV csvThreeColumns = Inr [\<lparr>name = ''x'', program = ''y''\<rparr>]"
  unfolding csvThreeColumns_def by code_simp

theorem parseCSV_three_columns_witness:
  "parseCSV csvThreeColumns \<noteq> Inl MissingHeader"
  using parseCSV_three_columns by simp

lemma set_jsSet: "set (jsSet xs) = set xs"
  by (simp add: jsSet_def)

lemma jsSet_empty: "jsSet xs = [] \<longleftrightarrow> xs = []"
  using set_jsSet [of xs] by (metis set_empty)

lemma jsSet_replicate: "0 < n \<Longrightarrow> jsSet (replicate n c) = [c]"
proof -
  have "remdups (replicate (Suc k) c) = [c]" for k by (induction k) simp_all
  moreover assume "0 < n"
  ultimately show ?thesis by (cases n) (simp_all add: jsSet_def del: replicate_Suc)
qed

lemma map_filter_const:
  "\<forall>x\<in>set xs. f x = Some c \<Longrightarrow> List.map_filter f xs = replicate (length xs) c"
  by (induction xs) (simp_all add: map_filter_simps)

lemma fold_upd: "fold (\<lambda>k m. m(k \<mapsto> c)) ks m k' = (if k' \<in> set ks then Some c else m k')"
  by (induction ks arbitrary: m) auto

lemma buildCohorts_fst:
  "fst (buildCohorts gs cs m) = cs @ filter (\<lambda>ks. ks \<noteq> []) (map cohortKeys gs)"
  by (induction gs arbitrary: cs m) (simp_all add: Let_def cohortKeys_def)

lemma buildCohorts_snd:
  assumes "distinct (concat (map cohortKeys gs))"
  shows "(k \<notin> set (concat (map cohortKeys gs)) \<longrightarrow> snd (buildCohorts gs cs m) k = m k)
       \<and> (\<forall>i<length (filter (\<lambda>ks. ks \<noteq> []) (map cohortKeys gs)).
            k \<in> set (filter (\<lambda>ks. ks \<noteq> []) (map cohortKeys gs) ! i)
              \<longrightarrow> snd (buildCohorts gs cs m) k = Some (length cs + i))"
  using assms
proof (induction gs arbitrary: cs m)
  case Nil
  then show ?case by simp
next
  case (Cons g gs)
  let ?ks = "cohortKeys g"
  let ?new = "filter (\<lambda>ks. ks \<noteq> []) (map cohortKeys gs)"
  from Cons.prems have d: "distinct (concat (map cohortKeys gs))"
    and disj: "set ?ks \<inter> set (concat (map cohortKeys gs)) = {}" by auto
  show ?case
  proof (cases "?ks = []")
    case True
    then have "buildCohorts (g # gs) cs m = buildCohorts gs cs m"
      by (simp add: cohortKeys_def Let_def)
    with Cons.IH [OF d, of cs m] True show ?thesis by simp
  next
    case False
    let ?m = "fold (\<lambda>k m. m(k \<mapsto> length cs)) ?ks m"
    from False have eq: "buildCohorts (g # gs) cs m = buildCohorts gs (cs @ [?ks]) ?m"
      by (simp add: cohortKeys_def Let_def)
    note IH = Cons.IH [OF d, of "cs @ [?ks]" ?m]
    have new: "filter (\<lambda>ks. ks \<noteq> []) (map cohortKeys (g # gs)) = ?ks # ?new"
      using False by simp
    show ?thesis
    proof (intro conjI impI allI)
      assume "k \<notin> set (concat (map cohortKeys (g # gs)))"
      then have out: "k \<notin> set ?ks" "k \<notin> set (concat (map cohortKeys gs))" by auto
      with IH have "snd (buildCohorts gs (cs @ [?ks]) ?m) k = ?m k" by blast
      also have "?m k = m k" using out by (simp add: fold_upd)
      finally show "snd (buildCohorts (g # gs) cs m) k = m k" by (simp only: eq)
    next
      fix i
      assume i: "i < length (filter (\<lambda>ks. ks \<noteq> []) (map cohortKeys (g # gs)))"
        and k: "k \<in> set (filter (\<lambda>ks. ks \<noteq> []) (map cohortKeys (g # gs)) ! i)"
      show "snd (buildCohorts (g # gs) cs m) k = Some (length cs + i)"
      proof (cases i)
        case 0
        with k new have "k \<in> set ?ks" by simp
        with disj have "k \<notin> set (concat (map cohortKeys gs))" by auto
        with IH have "snd (buildCohorts gs (cs @ [?ks]) ?m) k = ?m k" by blast
        also have "?m k = Some (length cs)" using \<open>k \<in> set ?ks\<close> by (simp add: fold_upd)
        finally show ?thesis using 0 by (simp only: eq) simp
      next
        case (Suc i')
        with i k new have "i' < length ?new" "k \<in> set (?new ! i')" by simp_all
        with IH have "snd (buildCohorts gs (cs @ [?ks]) ?m) k = Some (length (cs @ [?ks]) + i')"
          by blast
        then show ?thesis using Suc by (simp only: eq) simp
      qed
    qed
  qed
qed

lemma checkNext_tail:
  "\<forall>g\<in>set gs. filter locked (students g) = [] \<Longrightarrow>
     checkNext cohorts k2c sat gs = list_all (\<lambda>b. b) sat"
  by (induction gs arbitrary: sat) (simp_all add: Let_def jsSet_def)

lemma checkNext_ok:
  assumes k2c: "\<forall>c<length cohorts. \<forall>k\<in>set (cohorts ! c). k2c k = Some c"
    and tail: "\<forall>g\<in>set gsB. filter locked (students g) = []"
  shows "j + length gsA = length cohorts \<Longrightarrow>
     \<forall>i<length gsA. filter locked (students (gsA ! i)) \<noteq> []
         \<and> set (map key (filter locked (students (gsA ! i)))) = set (cohorts ! (j + i)) \<Longrightarrow>
     checkNext cohorts k2c (replicate j True @ replicate (length gsA) False) (gsA @ gsB)"
proof (induction gsA arbitrary: j)
  case Nil
  then show ?case using tail by (simp add: checkNext_tail list_all_iff)
next
  case (Cons g gsA)
  let ?lk = "map key (filter locked (students g))"
  from Cons.prems(2) [rule_format, of 0]
  have ne: "filter locked (students g) \<noteq> []" and same: "set ?lk = set (cohorts ! j)" by simp_all
  from Cons.prems(1) have j: "j < length cohorts" by simp
  with k2c same have "\<forall>k\<in>set ?lk. k2c k = Some j" by blast
  then have "List.map_filter k2c ?lk = replicate (length ?lk) j" by (rule map_filter_const)
  moreover have "0 < length ?lk" using ne by simp
  ultimately have ids: "jsSet (List.map_filter k2c ?lk) = [j]" by (simp add: jsSet_replicate)
  have all: "\<not> list_ex (\<lambda>k. k \<notin> set ?lk) (cohorts ! j)" using same by (simp add: list_ex_iff)
  have sat: "\<not> (replicate j True @ replicate (length (g # gsA)) False) ! j"
    by (simp add: nth_append)
  have upd: "(replicate j True @ replicate (length (g # gsA)) False)[j := True]
      = replicate (Suc j) True @ replicate (length gsA) False"
    by (simp add: list_update_append replicate_append_same)
  have "checkNext cohorts k2c (replicate (Suc j) True @ replicate (length gsA) False) (gsA @ gsB)"
  proof (rule Cons.IH)
    show "Suc j + length gsA = length cohorts" using Cons.prems(1) by simp
    show "\<forall>i<length gsA. filter locked (students (gsA ! i)) \<noteq> []
         \<and> set (map key (filter locked (students (gsA ! i)))) = set (cohorts ! (Suc j + i))"
    proof (intro allI impI)
      fix i
      assume "i < length gsA"
      with Cons.prems(2) [rule_format, of "Suc i"]
      show "filter locked (students (gsA ! i)) \<noteq> []
         \<and> set (map key (filter locked (students (gsA ! i)))) = set (cohorts ! (Suc j + i))"
        by simp
    qed
  qed
  with ids all sat upd show ?case by (simp add: Let_def)
qed

lemma key_asLocked: "key (asLocked s) = key s"
  by (simp add: key_def asLocked_def)

lemma cohorts_of_lockedGroups:
  "filter (\<lambda>ks. ks \<noteq> []) (map cohortKeys grps) = map (\<lambda>l. jsSet (map key l)) (lockedGroupsOf grps)"
  by (induction grps) (auto simp: lockedGroupsOf_def cohortKeys_def jsSet_empty key_asLocked comp_def)

lemma lockedGroupsOf_nonempty: "l \<in> set (lockedGroupsOf grps) \<Longrightarrow> l \<noteq> []"
  by (auto simp: lockedGroupsOf_def)

section \<open>The claims about the locked cohorts\<close>

lemma applyNewGroupSize_Applied:
  assumes "applyNewGroupSize orc orc' stateGroups payload progs newSize seed = Applied grps"
  shows "reshuffleRespectingLocksToGroupSize orc' payload progs newSize seed = Inr grps
    \<and> lockedStayInPlace payload grps"
  using assms
  by (auto simp: applyNewGroupSize_def Let_def split: if_splits option.splits sum.splits)

lemma example_applied:
  "applyNewGroupSize (\<lambda>k. k) (\<lambda>k. k) exampleGroups exampleGroups [''CS'', ''Math'', ''Physics''] 2 (Some 1)
     = Applied exampleReshuffled"
  by code_simp

text \<open>
  C4, as claimed, fails where two groups each hold a locked student of the same name and
  program: \<open>reshuffleRespectingLocksToGroupSize\<close> returns (each cohort in a group of
  its own), and \<open>lockedStayInPlace\<close> of the groups before and of that result is false,
  the key of both students being mapped to the second cohort.
\<close>

theorem reshuffle_duplicate_identity_counterexample:
  "reshuffleRespectingLocksToGroupSize (\<lambda>k. k) exampleDuplicates [''CS''] 1 None = Inr exampleDuplicates
     \<and> \<not> lockedStayInPlace exampleDuplicates exampleDuplicates"
  by code_simp

text \<open>
  C4, amended. Whenever \<open>reshuffleRespectingLocksToGroupSize\<close> returns groups, and no key
  \<open>name:::program\<close> of a locked student occurs among the locked students of two
  different groups before, \<open>lockedStayInPlace\<close> of the groups before and of the groups
  returned is true. And whatever the keys, the groups that \<open>applyNewGroupSize\<close> applies
  pass \<open>lockedStayInPlace\<close>: it runs the check on every result and refuses the size when
  the check fails.
\<close>

theorem reshuffle_keeps_locked_in_place:
  "(reshuffleRespectingLocksToGroupSize orc grps progs gSize seed = Inr res
      \<and> distinct (concat (map cohortKeys grps)) \<longrightarrow> lockedStayInPlace grps res)
   \<and> (applyNewGroupSize orc orc' stateGroups grps progs gSize seed = Applied res'
      \<longrightarrow> lockedStayInPlace grps res')"
proof (intro conjI impI)
  assume "applyNewGroupSize orc orc' stateGroups grps progs gSize seed = Applied res'"
  then show "lockedStayInPlace grps res'" by (simp add: applyNewGroupSize_Applied)
next
  assume "reshuffleRespectingLocksToGroupSize orc grps progs gSize seed = Inr res
      \<and> distinct (concat (map cohortKeys grps))"
  then have ret: "reshuffleRespectingLocksToGroupSize orc grps progs gSize seed = Inr res"
    and dis: "distinct (concat (map cohortKeys grps))" by simp_all
  define LG where "LG = lockedGroupsOf grps"
  from reshuffle_result [OF ret] obtain res2
    where res: "res = groupsWithWarnings progs res2"
      and fits: "length LG \<le> length res2"
      and lp: "map (filter locked) res2 = LG @ replicate (length res2 - length LG) []"
    unfolding LG_def by blast
  define cohorts where "cohorts = filter (\<lambda>ks. ks \<noteq> []) (map cohortKeys grps)"
  define k2c where "k2c = snd (buildCohorts grps [] Map.empty)"
  have bc: "buildCohorts grps [] Map.empty = (cohorts, k2c)"
    using buildCohorts_fst [of grps "[]" Map.empty] by (simp add: cohorts_def k2c_def prod_eq_iff)
  have P1: "\<forall>c<length cohorts. \<forall>k\<in>set (cohorts ! c). k2c k = Some c"
    using buildCohorts_snd [OF dis, of _ "[]" Map.empty] by (simp add: cohorts_def k2c_def)
  have coh: "cohorts = map (\<lambda>l. jsSet (map key l)) LG"
    by (simp add: cohorts_def LG_def cohorts_of_lockedGroups)
  then have k: "length cohorts = length LG" by simp
  have st: "map students res = res2" by (simp add: res students_groupsWithWarnings)
  then have lres: "length res = length res2" by (metis length_map)
  have lk: "filter locked (students (res ! i)) = (LG @ replicate (length res2 - length LG) []) ! i"
    if "i < length res" for i
  proof -
    have "students (res ! i) = res2 ! i" using that st by (metis nth_map)
    moreover have "filter locked (res2 ! i) = map (filter locked) res2 ! i"
      using that lres by simp
    ultimately show ?thesis using lp by simp
  qed
  let ?A = "take (length LG) res"
  let ?B = "drop (length LG) res"
  have lenA: "length ?A = length LG" using fits lres by simp
  have A: "\<forall>i<length ?A. filter locked (students (?A ! i)) \<noteq> []
         \<and> set (map key (filter locked (students (?A ! i)))) = set (cohorts ! (0 + i))"
  proof (intro allI impI)
    fix i
    assume "i < length ?A"
    then have i: "i < length LG" "i < length res" using lenA fits lres by simp_all
    then have "filter locked (students (?A ! i)) = LG ! i"
      using lk [of i] by (simp add: nth_append)
    moreover have "LG ! i \<noteq> []"
      using i(1) lockedGroupsOf_nonempty [of "LG ! i" grps] by (simp add: LG_def)
    moreover have "set (cohorts ! i) = set (map key (LG ! i))"
      using i(1) by (simp add: coh set_jsSet)
    ultimately show "filter locked (students (?A ! i)) \<noteq> []
         \<and> set (map key (filter locked (students (?A ! i)))) = set (cohorts ! (0 + i))"
      by simp
  qed
  have B: "\<forall>g\<in>set ?B. filter locked (students g) = []"
  proof
    fix g
    assume "g \<in> set ?B"
    then obtain n where n: "n < length ?B" "g = ?B ! n" by (auto simp: in_set_conv_nth)
    then have "length LG + n < length res" by simp
    then have "filter locked (students (res ! (length LG + n)))
        = (LG @ replicate (length res2 - length LG) []) ! (length LG + n)" by (rule lk)
    also have "\<dots> = []" using n lres by simp
    finally show "filter locked (students g) = []" using n by simp
  qed
  have j: "0 + length ?A = length cohorts" using lenA k by simp
  have "checkNext cohorts k2c (replicate 0 True @ replicate (length ?A) False) (?A @ ?B)"
    using P1 B j A by (rule checkNext_ok)
  then have "checkNext cohorts k2c (replicate (length cohorts) False) res"
    using j by simp
  then show "lockedStayInPlace grps res" by (simp add: lockedStayInPlace_def bc)
qed

theorem reshuffle_keeps_locked_in_place_witness:
  "reshuffleRespectingLocksToGroupSize (\<lambda>k. k) exampleGroups [''CS'', ''Math'', ''Physics''] 2 (Some 1)
       = Inr exampleReshuffled
     \<and> distinct (concat (map cohortKeys exampleGroups))
     \<and> applyNewGroupSize (\<lambda>k. k) (\<lambda>k. k) exampleGroups exampleGroups [''CS'', ''Math'', ''Physics''] 2 (Some 1)
       = Applied exampleReshuffled
     \<and> lockedStayInPlace exampleGroups exampleReshuffled"
proof -
  have d: "distinct (concat (map cohortKeys exampleGroups))" by code_simp
  from reshuffle_keeps_locked_in_place [of "\<lambda>k. k" exampleGroups "[''CS'', ''Math'', ''Physics'']" 2
      "Some 1" exampleReshuffled "\<lambda>k. k" exampleGroups exampleReshuffled]
    example_reshuffle example_applied d
  show ?thesis by simp
qed



end
